theory Spec2Isabelle
  imports Main "HOL-Library.Word" "HOL-Library.Tree"
begin

unbundle bit_operations_syntax

section \<open>The symbol table of \<^verbatim>\<open>src/symbol.c\<close>\<close>

text \<open>
  A shallow embedding of Julia's symbol table on an LP64 platform: \<^verbatim>\<open>size_t\<close>,
  \<^verbatim>\<open>uintptr_t\<close> and pointers are 64 bits wide, \<^verbatim>\<open>intptr_t\<close> is their two's
  complement reading. Symbols live in an explicit store from addresses to nodes; the
  table is the pointer-linked tree under \<^verbatim>\<open>symtab\<close>. The model is sequential: the
  mutex and the memory orderings of the atomics have no counterpart, an atomic load is
  a read and an atomic store a write.
\<close>

subsection \<open>Machine types and C buffers\<close>

type_synonym byte = "8 word"
type_synonym size_t = "64 word"
type_synonym uintptr_t = "64 word"
type_synonym addr = nat

text \<open>
  A \<^verbatim>\<open>const char *\<close> is the list of the bytes readable from the pointer on. A read
  past the end of the list is a fault (undefined behaviour in C): every function that
  reads memory returns an option, \<open>None\<close> being the fault.
\<close>

definition bytes_at :: "byte list \<Rightarrow> nat \<Rightarrow> byte list option" where
  "bytes_at buf n = (if n \<le> length buf then Some (take n buf) else None)"

definition byte_at :: "byte list \<Rightarrow> nat \<Rightarrow> byte option" where
  "byte_at buf i = (if i < length buf then Some (buf ! i) else None)"

text \<open>\<^verbatim>\<open>memchr(s, c, n) != NULL\<close>: the scan stops at the first hit.\<close>

fun memchr :: "byte list \<Rightarrow> byte \<Rightarrow> nat \<Rightarrow> bool option" where
  "memchr s c 0 = Some False"
| "memchr [] c (Suc n) = None"
| "memchr (x # s) c (Suc n) = (if x = c then Some True else memchr s c n)"

fun strlen :: "byte list \<Rightarrow> nat option" where
  "strlen [] = None"
| "strlen (x # s) = (if x = 0 then Some 0 else map_option Suc (strlen s))"

text \<open>
  \<^verbatim>\<open>strncmp\<close> compares at most \<open>n\<close> bytes as unsigned chars and stops after a NUL;
  the callers read only the sign of the result.
\<close>

fun strncmp :: "byte list \<Rightarrow> byte list \<Rightarrow> nat \<Rightarrow> int option" where
  "strncmp s1 s2 0 = Some 0"
| "strncmp (a # s1) (b # s2) (Suc n) =
     (if a \<noteq> b then Some (uint a - uint b)
      else if a = 0 then Some 0
      else strncmp s1 s2 n)"
| "strncmp s1 s2 (Suc n) = None"

text \<open>\<^verbatim>\<open>memcpy(dst + off, src, n)\<close>, the new contents of \<open>dst\<close>.\<close>

definition memcpy :: "byte list \<Rightarrow> nat \<Rightarrow> byte list \<Rightarrow> nat \<Rightarrow> byte list option" where
  "memcpy dst off src n =
     (if n \<le> length src \<and> off + n \<le> length dst
      then Some (take off dst @ take n src @ drop (off + n) dst)
      else None)"

subsection \<open>Sizes\<close>

text \<open>
  Modelled from the spec: the declarations of \<^verbatim>\<open>jl_sym_t\<close> and \<^verbatim>\<open>jl_taggedvalue_t\<close>
  (julia.h) are not among the sources. The spec's Symbol has the header fields left,
  right and hash before the name: three 8-byte words. The tagged-value header is the
  one word of per-object overhead in front of it.
\<close>

definition sizeof_jl_sym_t :: size_t where
  "sizeof_jl_sym_t = 24"

definition sizeof_jl_taggedvalue_t :: size_t where
  "sizeof_jl_taggedvalue_t = 8"

definition INTPTR_MAX :: size_t where
  "INTPTR_MAX = 2 ^ 63 - 1"

definition MAX_SYM_LEN :: size_t where
  "MAX_SYM_LEN = INTPTR_MAX - sizeof_jl_taggedvalue_t - sizeof_jl_sym_t - 1"

definition symbol_nbytes :: "size_t \<Rightarrow> size_t" where
  "symbol_nbytes len = (sizeof_jl_sym_t + len + 1 + 7) AND (- 8)"

subsection \<open>Symbols, the store and the hash\<close>

text \<open>
  \<open>sym_name\<close> holds the bytes at \<^verbatim>\<open>jl_symbol_name(sym)\<close> up to and including the
  terminator that \<^verbatim>\<open>mk_symbol\<close> writes; a child pointer is \<open>None\<close> for \<^verbatim>\<open>NULL\<close>.
\<close>

record jl_sym =
  sym_left :: "addr option"
  sym_right :: "addr option"
  sym_hash :: uintptr_t
  sym_name :: "byte list"

text \<open>
  \<^verbatim>\<open>memhash\<close> and \<^verbatim>\<open>inthash\<close> (support/hashing) are not among the sources and no
  property below depends on their values: they are parameters of the model.
\<close>

record hashing =
  memhash :: "byte list \<Rightarrow> uintptr_t"
  inthash :: "uintptr_t \<Rightarrow> uintptr_t"

record symtab_state =
  mem :: "addr \<Rightarrow> jl_sym option"
  perm_next :: addr
  symtab :: "addr option"
  gs_ctr :: "32 word"

datatype jl_error = NameTooLong | EmbeddedNul | AssertionFailed

text \<open>
  \<open>NameTooLong\<close> is the ArgumentError "Symbol name too long", \<open>EmbeddedNul\<close> the
  ArgumentError "Symbol name may not contain \0", \<open>AssertionFailed\<close> the abort of a
  failed \<^verbatim>\<open>assert\<close>.
\<close>

definition hash_symbol :: "hashing \<Rightarrow> byte list \<Rightarrow> size_t \<Rightarrow> uintptr_t option" where
  "hash_symbol H str len =
     (case bytes_at str (unat len) of
        None \<Rightarrow> None
      | Some bs \<Rightarrow>
          (let oid = memhash H bs XOR ((NOT 0) div 3) * 2
           in Some (inthash H (- oid))))"

text \<open>
  Modelled from the spec: \<^verbatim>\<open>jl_gc_permobj\<close> is not among the sources. The immortal
  allocator hands out blocks that are never moved and never reclaimed: a bump
  allocator over the addresses from \<open>perm_next\<close> on, which never fails.
\<close>

definition jl_gc_permobj :: "symtab_state \<Rightarrow> size_t \<Rightarrow> addr \<times> symtab_state" where
  "jl_gc_permobj st nb = (perm_next st, st\<lparr>perm_next := perm_next st + unat nb\<rparr>)"

definition mk_symbol ::
  "hashing \<Rightarrow> symtab_state \<Rightarrow> byte list \<Rightarrow> size_t \<Rightarrow> (addr \<times> symtab_state) option" where
  "mk_symbol H st str len =
     (let nb = symbol_nbytes len;
          (sym, st1) = jl_gc_permobj st nb
      in case hash_symbol H str len of
           None \<Rightarrow> None
         | Some h \<Rightarrow>
             (case bytes_at str (unat len) of
                None \<Rightarrow> None
              | Some bs \<Rightarrow>
                  Some (sym, st1\<lparr>mem := (mem st1)(sym \<mapsto>
                    \<lparr>sym_left = None, sym_right = None, sym_hash = h,
                     sym_name = bs @ [0]\<rparr>)\<rparr>)))"

subsection \<open>The tree search\<close>

text \<open>
  A slot is an \<^verbatim>\<open>_Atomic(jl_sym_t*) *\<close>: the address of the root pointer or of a child
  field of a node.
\<close>

datatype slot = Root | LeftOf addr | RightOf addr

definition load :: "symtab_state \<Rightarrow> slot \<Rightarrow> addr option option" where
  "load st s =
     (case s of
        Root \<Rightarrow> Some (symtab st)
      | LeftOf a \<Rightarrow> map_option sym_left (mem st a)
      | RightOf a \<Rightarrow> map_option sym_right (mem st a))"

definition store :: "symtab_state \<Rightarrow> slot \<Rightarrow> addr option \<Rightarrow> symtab_state option" where
  "store st s v =
     (case s of
        Root \<Rightarrow> Some (st\<lparr>symtab := v\<rparr>)
      | LeftOf a \<Rightarrow>
          (case mem st a of
             None \<Rightarrow> None
           | Some n \<Rightarrow> Some (st\<lparr>mem := (mem st)(a \<mapsto> n\<lparr>sym_left := v\<rparr>)\<rparr>))
      | RightOf a \<Rightarrow>
          (case mem st a of
             None \<Rightarrow> None
           | Some n \<Rightarrow> Some (st\<lparr>mem := (mem st)(a \<mapsto> n\<lparr>sym_right := v\<rparr>)\<rparr>)))"

text \<open>
  The body of the loop of \<^verbatim>\<open>symtab_lookup\<close> at one node, with hash \<open>nh\<close> and name
  \<open>nm\<close>: the final value of \<^verbatim>\<open>x\<close> and whether the node is the one searched for.
\<close>

definition node_cmp ::
  "uintptr_t \<Rightarrow> byte list \<Rightarrow> size_t \<Rightarrow> uintptr_t \<Rightarrow> byte list \<Rightarrow> (int \<times> bool) option" where
  "node_cmp h str len nh nm =
     (let x = sint (h - nh)
      in if x = 0 then
           (case strncmp str nm (unat len) of
              None \<Rightarrow> None
            | Some x \<Rightarrow>
                if x = 0 then
                  (case byte_at nm (unat len) of
                     None \<Rightarrow> None
                   | Some c \<Rightarrow> Some (x, c = 0))
                else Some (x, False))
         else Some (x, False))"

text \<open>
  The loop, from the slot \<open>ptree\<close> whose contents \<open>node\<close> was just loaded. The result
  is the node found (or \<open>None\<close> for \<^verbatim>\<open>NULL\<close>) and the slot the search ended in, which
  the source writes to \<^verbatim>\<open>*slot\<close> when the caller asks for it. The outer \<open>None\<close> is a
  search that reads unallocated memory or never ends.
\<close>

partial_function (option) lookup_loop ::
  "symtab_state \<Rightarrow> uintptr_t \<Rightarrow> byte list \<Rightarrow> size_t \<Rightarrow> slot \<Rightarrow> addr option
     \<Rightarrow> (addr option \<times> slot) option" where
  "lookup_loop st h str len ptree node =
     (case node of
        None \<Rightarrow> Some (None, ptree)
      | Some a \<Rightarrow>
          (case mem st a of
             None \<Rightarrow> None
           | Some n \<Rightarrow>
               (case node_cmp h str len (sym_hash n) (sym_name n) of
                  None \<Rightarrow> None
                | Some (x, hit) \<Rightarrow>
                    if hit then Some (Some a, ptree)
                    else
                      (let ptree' = (if x < 0 then LeftOf a else RightOf a)
                       in case load st ptree' of
                            None \<Rightarrow> None
                          | Some node' \<Rightarrow> lookup_loop st h str len ptree' node'))))"

definition symtab_lookup ::
  "hashing \<Rightarrow> symtab_state \<Rightarrow> slot \<Rightarrow> byte list \<Rightarrow> size_t \<Rightarrow> (addr option \<times> slot) option" where
  "symtab_lookup H st ptree str len =
     (case load st ptree of
        None \<Rightarrow> None
      | Some node \<Rightarrow>
          (case hash_symbol H str len of
             None \<Rightarrow> None
           | Some h \<Rightarrow> lookup_loop st h str len ptree node))"

subsection \<open>Interning\<close>

text \<open>
  \<^verbatim>\<open>_jl_symbol\<close>, named \<open>jl_symbol_raw\<close> here (a name cannot start with an
  underscore). A result is the value returned or the error raised, with the state the
  call leaves behind. The \<^verbatim>\<open>assert\<close> aborts when it fails. Under the lock the source
  searches again from \<open>slot\<close> when it is no longer empty, which replaces \<open>slot\<close>;
  locking and unlocking do nothing in a sequential run.
\<close>

definition jl_symbol_raw ::
  "hashing \<Rightarrow> symtab_state \<Rightarrow> byte list \<Rightarrow> size_t
     \<Rightarrow> ((jl_error + addr) \<times> symtab_state) option" where
  "jl_symbol_raw H st str len =
     (if len > MAX_SYM_LEN then Some (Inl NameTooLong, st)
      else
        (case memchr str 0 (unat len) of
           None \<Rightarrow> None
         | Some True \<Rightarrow> Some (Inl AssertionFailed, st)
         | Some False \<Rightarrow>
             (case symtab_lookup H st Root str len of
                None \<Rightarrow> None
              | Some (Some node, slot) \<Rightarrow> Some (Inr node, st)
              | Some (None, slot) \<Rightarrow>
                  (case load st slot of
                     None \<Rightarrow> None
                   | Some cur \<Rightarrow>
                       (case (if cur \<noteq> None then symtab_lookup H st slot str len
                              else Some (None, slot)) of
                          None \<Rightarrow> None
                        | Some (Some node, slot') \<Rightarrow> Some (Inr node, st)
                        | Some (None, slot') \<Rightarrow>
                            (case mk_symbol H st str len of
                               None \<Rightarrow> None
                             | Some (node, st1) \<Rightarrow>
                                 (case store st1 slot' (Some node) of
                                    None \<Rightarrow> None
                                  | Some st2 \<Rightarrow> Some (Inr node, st2))))))))"

definition jl_symbol ::
  "hashing \<Rightarrow> symtab_state \<Rightarrow> byte list \<Rightarrow> ((jl_error + addr) \<times> symtab_state) option" where
  "jl_symbol H st str =
     (case strlen str of
        None \<Rightarrow> None
      | Some l \<Rightarrow> jl_symbol_raw H st str (of_nat l))"

definition jl_symbol_lookup :: "hashing \<Rightarrow> symtab_state \<Rightarrow> byte list \<Rightarrow> addr option option" where
  "jl_symbol_lookup H st str =
     (case strlen str of
        None \<Rightarrow> None
      | Some l \<Rightarrow> map_option fst (symtab_lookup H st Root str (of_nat l)))"

definition jl_symbol_n ::
  "hashing \<Rightarrow> symtab_state \<Rightarrow> byte list \<Rightarrow> size_t
     \<Rightarrow> ((jl_error + addr) \<times> symtab_state) option" where
  "jl_symbol_n H st str len =
     (case memchr str 0 (unat len) of
        None \<Rightarrow> None
      | Some True \<Rightarrow> Some (Inl EmbeddedNul, st)
      | Some False \<Rightarrow> jl_symbol_raw H st str len)"

definition jl_get_root_symbol :: "symtab_state \<Rightarrow> addr option" where
  "jl_get_root_symbol st = symtab st"

subsection \<open>Generated names\<close>

definition jl_get_gs_ctr :: "symtab_state \<Rightarrow> 32 word" where
  "jl_get_gs_ctr st = gs_ctr st"

definition jl_set_gs_ctr :: "symtab_state \<Rightarrow> 32 word \<Rightarrow> symtab_state" where
  "jl_set_gs_ctr st ctr = st\<lparr>gs_ctr := ctr\<rparr>"

text \<open>
  Modelled from the spec: \<^verbatim>\<open>uint2str\<close> (support/utils) is not among the sources. The
  spec has the counter formatted as decimal digits; the call sites fix the buffer
  protocol: \<^verbatim>\<open>uint2str(dest, len, num, base)\<close> ends the buffer with a NUL in
  \<^verbatim>\<open>dest[len - 1]\<close>, writes the digits of \<open>num\<close> right-aligned before it, least
  significant digit last, and returns the position of the first digit. The result here
  is the buffer written and that position as an index into it.
\<close>

definition digit_char :: "nat \<Rightarrow> byte" where
  "digit_char d = (if d < 10 then of_nat (d + 48) else of_nat (d - 10 + 97))"

fun uint2str_loop :: "byte list \<Rightarrow> nat \<Rightarrow> nat \<Rightarrow> nat \<Rightarrow> byte list \<times> nat" where
  "uint2str_loop dest 0 num b = (dest, 0)"
| "uint2str_loop dest (Suc i) num b =
     (let dest' = dest[i := digit_char (num mod b)];
          num' = num div b
      in if num' = 0 then (dest', i) else uint2str_loop dest' i num' b)"

definition uint2str :: "byte list \<Rightarrow> nat \<Rightarrow> nat \<Rightarrow> nat \<Rightarrow> byte list \<times> nat" where
  "uint2str dest len num b = uint2str_loop (dest[len - 1 := 0]) (len - 1) num b"

text \<open>
  \<^verbatim>\<open>jl_gensym\<close>: the 16 bytes of \<^verbatim>\<open>name\<close> start out as zeros here (the source leaves
  them uninitialised and writes every byte it later reads). \<open>n\<close> is the index in
  \<^verbatim>\<open>name\<close> that the pointer \<^verbatim>\<open>n\<close> stands at.
\<close>

definition jl_gensym ::
  "hashing \<Rightarrow> symtab_state \<Rightarrow> ((jl_error + addr) \<times> symtab_state) option" where
  "jl_gensym H st =
     (let name = replicate 16 (0 :: byte);
          ctr = gs_ctr st;
          st1 = st\<lparr>gs_ctr := ctr + 1\<rparr>;
          (tail, off) = uint2str (drop 2 name) (16 - 2) (unat ctr) 10;
          name = take 2 name @ tail;
          n = 2 + off;
          n = n - 1;
          name = name[n := 35];
          n = n - 1;
          name = name[n := 35]
      in jl_symbol H st1 (drop n name))"

text \<open>
  \<^verbatim>\<open>jl_tagged_gensym\<close>: \<^verbatim>\<open>(size_t)-1\<close> as \<open>len\<close> asks for \<^verbatim>\<open>strlen(str)\<close>. The buffer
  \<^verbatim>\<open>name\<close> (from \<^verbatim>\<open>alloca\<close> or \<^verbatim>\<open>malloc_s\<close>, which aborts rather than return NULL)
  and \<^verbatim>\<open>gs_name\<close> start out as zeros.
\<close>

definition jl_tagged_gensym ::
  "hashing \<Rightarrow> symtab_state \<Rightarrow> byte list \<Rightarrow> size_t
     \<Rightarrow> ((jl_error + addr) \<times> symtab_state) option" where
  "jl_tagged_gensym H st str len =
     (case (if len = - 1 then map_option (\<lambda>l. (of_nat l, False)) (strlen str)
            else map_option (\<lambda>found. (len, found)) (memchr str 0 (unat len))) of
        None \<Rightarrow> None
      | Some (len, found) \<Rightarrow>
          if found then Some (Inl EmbeddedNul, st)
          else
            (let gs_name = replicate 14 (0 :: byte);
                 alloc_len = 14 + len + 3
             in if len > MAX_SYM_LEN \<or> alloc_len > MAX_SYM_LEN
                then Some (Inl NameTooLong, st)
                else
                  (let name = replicate (unat alloc_len) (0 :: byte);
                       name = name[0 := 35];
                       name = name[1 := 35];
                       name = name[2 + unat len := 35]
                   in case memcpy name 2 str (unat len) of
                        None \<Rightarrow> None
                      | Some name \<Rightarrow>
                          (let ctr = gs_ctr st;
                               st1 = st\<lparr>gs_ctr := ctr + 1\<rparr>;
                               (gs_name, n) = uint2str gs_name 14 (unat ctr) 10
                           in case memcpy name (3 + unat len) (drop n gs_name) (14 - n) of
                                None \<Rightarrow> None
                              | Some name \<Rightarrow>
                                  jl_symbol_raw H st1 name (alloc_len - of_nat n - 1)))))"

subsection \<open>The table as a tree\<close>

text \<open>
  The tree that the store holds under a pointer, as a value: every node with its
  address, hash and name bytes. \<open>htree m p t\<close> says that the nodes reachable from \<open>p\<close>
  in the store \<open>m\<close> form exactly \<open>t\<close> and that no address occurs twice.
\<close>

type_synonym anode = "addr \<times> uintptr_t \<times> byte list"

definition addrs :: "anode tree \<Rightarrow> addr set" where
  "addrs t = fst ` set_tree t"

fun htree :: "(addr \<Rightarrow> jl_sym option) \<Rightarrow> addr option \<Rightarrow> anode tree \<Rightarrow> bool" where
  "htree m p Leaf = (p = None)"
| "htree m p (Node l (a, nh, nm) r) =
     (p = Some a \<and>
      (case m a of
         None \<Rightarrow> False
       | Some n \<Rightarrow>
           sym_hash n = nh \<and> sym_name n = nm \<and>
           htree m (sym_left n) l \<and> htree m (sym_right n) r) \<and>
      a \<notin> addrs l \<and> a \<notin> addrs r \<and> addrs l \<inter> addrs r = {})"

text \<open>The search of \<open>lookup_loop\<close> and the insertion of \<open>jl_symbol_raw\<close>, on the tree.\<close>

fun tfind ::
  "uintptr_t \<Rightarrow> byte list \<Rightarrow> size_t \<Rightarrow> slot \<Rightarrow> anode tree \<Rightarrow> (addr option \<times> slot) option" where
  "tfind h str len sl Leaf = Some (None, sl)"
| "tfind h str len sl (Node l (a, nh, nm) r) =
     (case node_cmp h str len nh nm of
        None \<Rightarrow> None
      | Some (x, hit) \<Rightarrow>
          if hit then Some (Some a, sl)
          else if x < 0 then tfind h str len (LeftOf a) l
          else tfind h str len (RightOf a) r)"

fun tinsert :: "uintptr_t \<Rightarrow> byte list \<Rightarrow> size_t \<Rightarrow> anode \<Rightarrow> anode tree \<Rightarrow> anode tree" where
  "tinsert h str len v Leaf = Node Leaf v Leaf"
| "tinsert h str len v (Node l (a, nh, nm) r) =
     (case node_cmp h str len nh nm of
        None \<Rightarrow> Node l (a, nh, nm) r
      | Some (x, hit) \<Rightarrow>
          if hit then Node l (a, nh, nm) r
          else if x < 0 then Node (tinsert h str len v l) (a, nh, nm) r
          else Node l (a, nh, nm) (tinsert h str len v r))"

text \<open>
  A node is well formed when its name is a NUL-terminated string of at most
  \<open>MAX_SYM_LEN\<close> bytes and its hash is the hash of that name.
\<close>

definition name_of :: "byte list \<Rightarrow> byte list" where
  "name_of nm = butlast nm"

definition node_ok :: "hashing \<Rightarrow> anode \<Rightarrow> bool" where
  "node_ok H v =
     (case v of (a, nh, nm) \<Rightarrow>
        nm \<noteq> [] \<and> last nm = 0 \<and> 0 \<notin> set (name_of nm) \<and>
        length (name_of nm) \<le> unat MAX_SYM_LEN \<and>
        hash_symbol H (name_of nm) (of_nat (length (name_of nm))) = Some nh)"

definition finds_itself :: "anode tree \<Rightarrow> anode \<Rightarrow> bool" where
  "finds_itself t v =
     (case v of (a, nh, nm) \<Rightarrow>
        map_option fst (tfind nh (name_of nm) (of_nat (length (name_of nm))) Root t)
          = Some (Some a))"

text \<open>
  The invariant of the table: the store holds a tree of well-formed nodes under
  \<^verbatim>\<open>symtab\<close>, the search for the name of a node of the tree ends at that node, the
  nodes of the tree are all the symbols allocated, and they lie below \<open>perm_next\<close>.
\<close>

definition symtab_inv :: "hashing \<Rightarrow> symtab_state \<Rightarrow> bool" where
  "symtab_inv H st =
     (\<exists>t. htree (mem st) (symtab st) t \<and>
          (\<forall>v \<in> set_tree t. node_ok H v \<and> finds_itself t v) \<and>
          (\<forall>a. mem st a \<noteq> None \<longleftrightarrow> a \<in> addrs t) \<and>
          (\<forall>a \<in> addrs t. a < perm_next st))"

text \<open>The names of the symbols allocated so far.\<close>

definition interned :: "symtab_state \<Rightarrow> byte list set" where
  "interned st = (\<lambda>n. name_of (sym_name n)) ` ran (mem st)"

text \<open>
  The states of a run: the table starts empty (\<^verbatim>\<open>symtab = NULL\<close>, \<^verbatim>\<open>gs_ctr = 0\<close>), with
  the allocator at some address \<open>base\<close>, and every call of the interface that returns
  or raises leaves the next state.
\<close>

definition symtab_init :: "addr \<Rightarrow> symtab_state" where
  "symtab_init base = \<lparr>mem = (\<lambda>a. None), perm_next = base, symtab = None, gs_ctr = 0\<rparr>"

inductive reachable :: "hashing \<Rightarrow> symtab_state \<Rightarrow> bool" for H :: hashing where
  reach_init: "reachable H (symtab_init base)"
| reach_symbol_raw:
    "reachable H st \<Longrightarrow> jl_symbol_raw H st str len = Some (r, st') \<Longrightarrow> reachable H st'"
| reach_symbol:
    "reachable H st \<Longrightarrow> jl_symbol H st str = Some (r, st') \<Longrightarrow> reachable H st'"
| reach_symbol_n:
    "reachable H st \<Longrightarrow> jl_symbol_n H st str len = Some (r, st') \<Longrightarrow> reachable H st'"
| reach_gensym:
    "reachable H st \<Longrightarrow> jl_gensym H st = Some (r, st') \<Longrightarrow> reachable H st'"
| reach_tagged_gensym:
    "reachable H st \<Longrightarrow> jl_tagged_gensym H st str len = Some (r, st') \<Longrightarrow> reachable H st'"
| reach_set_gs_ctr:
    "reachable H st \<Longrightarrow> reachable H (jl_set_gs_ctr st ctr)"

text \<open>The name of the symbol at a handle, as \<^verbatim>\<open>jl_symbol_name\<close> reads it.\<close>

definition jl_symbol_name :: "symtab_state \<Rightarrow> addr \<Rightarrow> byte list option" where
  "jl_symbol_name st a = map_option (\<lambda>n. takeWhile (\<lambda>c. c \<noteq> 0) (sym_name n)) (mem st a)"

text \<open>
  The decimal digits of a number as ASCII bytes, most significant digit first: the
  spec's "decimal digits" of the counter.
\<close>

fun decimal_digits :: "nat \<Rightarrow> byte list" where
  "decimal_digits n =
     (if n < 10 then [48 + of_nat n]
      else decimal_digits (n div 10) @ [48 + of_nat (n mod 10)])"

declare decimal_digits.simps [simp del]


text \<open>
  A stand-in for the hash functions, for stating concrete runs: a multiplicative
  string hash and the identity as the mixing step.
\<close>

definition demo_hashing :: hashing where
  "demo_hashing =
     \<lparr>memhash = (\<lambda>bs. fold (\<lambda>c h. h * 33 + ucast c) bs 5381), inthash = (\<lambda>x. x)\<rparr>"

text \<open>
  A second stand-in, which spreads hashes over the whole 64-bit range: the hash of a
  name is its first byte in the top byte of the word.
\<close>

definition spread_hashing :: hashing where
  "spread_hashing =
     \<lparr>memhash = (\<lambda>bs. (- push_bit 56 (ucast (case bs of [] \<Rightarrow> 0 | c # _ \<Rightarrow> c)))
                       XOR ((NOT 0) div 3) * 2),
      inthash = (\<lambda>x. x)\<rparr>"

section \<open>Properties\<close>

subsection \<open>C strings\<close>

lemma memchr_iff:
  "memchr s c n =
     (if c \<in> set (take n s) then Some True
      else if n \<le> length s then Some False else None)"
  by (induction s c n rule: memchr.induct) auto

lemma memchr_False_iff:
  "memchr s c n = Some False \<longleftrightarrow> n \<le> length s \<and> c \<notin> set (take n s)"
  by (simp add: memchr_iff)

lemma strlen_append:
  "0 \<notin> set bs \<Longrightarrow> strlen (bs @ 0 # rest) = Some (length bs)"
  by (induction bs) auto

lemma strlen_Some:
  "strlen s = Some l \<Longrightarrow> l < length s \<and> s ! l = 0 \<and> 0 \<notin> set (take l s)"
proof (induction s arbitrary: l)
  case Nil
  then show ?case by simp
next
  case (Cons x s)
  show ?case
  proof (cases "x = 0")
    case True
    with Cons.prems show ?thesis by simp
  next
    case False
    with Cons.prems obtain k where k: "strlen s = Some k" "l = Suc k"
      by auto
    from Cons.IH [OF k(1)] False k(2) show ?thesis by simp
  qed
qed

lemma strncmp_name:
  assumes "n \<le> length s" "0 \<notin> set (take n s)" "0 \<notin> set bs"
  shows "\<exists>x. strncmp s (bs @ [0]) n = Some x \<and>
           (x = 0 \<longleftrightarrow> n \<le> length bs \<and> take n s = take n bs)"
  using assms
proof (induction n arbitrary: s bs)
  case 0
  then show ?case by simp
next
  case (Suc n)
  then obtain a s' where s: "s = a # s'" by (cases s) auto
  with Suc.prems have a: "a \<noteq> 0" by auto
  show ?case
  proof (cases bs)
    case Nil
    with s a show ?thesis by (simp add: uint_0_iff)
  next
    case (Cons b bs')
    show ?thesis
    proof (cases "a = b")
      case True
      from Suc.IH [of s' bs'] Suc.prems s Cons
      obtain x where "strncmp s' (bs' @ [0]) n = Some x"
        "x = 0 \<longleftrightarrow> n \<le> length bs' \<and> take n s' = take n bs'"
        by auto
      with s Cons True a show ?thesis by simp
    next
      case False
      then have "uint a \<noteq> uint b" by (simp add: word_uint_eq_iff)
      with s Cons False show ?thesis by simp
    qed
  qed
qed

lemma byte_at_name:
  assumes "0 \<notin> set bs" "n \<le> length bs"
  shows "\<exists>c. byte_at (bs @ [0]) n = Some c \<and> (c = 0 \<longleftrightarrow> n = length bs)"
proof (cases "n = length bs")
  case True
  then show ?thesis by (simp add: byte_at_def)
next
  case False
  with assms have "n < length bs" by simp
  with assms have "bs ! n \<noteq> 0" by (metis nth_mem)
  with \<open>n < length bs\<close> show ?thesis by (simp add: byte_at_def nth_append)
qed

lemma node_cmp_name:
  assumes "unat len \<le> length s" "0 \<notin> set (take (unat len) s)" "0 \<notin> set bs"
  shows "\<exists>x. node_cmp h s len nh (bs @ [0]) = Some (x, h = nh \<and> take (unat len) s = bs)"
proof (cases "h = nh")
  case False
  then have "sint (h - nh) \<noteq> 0" by (simp add: signed_eq_0_iff)
  with False show ?thesis by (simp add: node_cmp_def)
next
  case True
  from strncmp_name [OF assms] obtain x where x: "strncmp s (bs @ [0]) (unat len) = Some x"
    "x = 0 \<longleftrightarrow> unat len \<le> length bs \<and> take (unat len) s = take (unat len) bs"
    by blast
  show ?thesis
  proof (cases "x = 0")
    case False
    with x have "take (unat len) s \<noteq> bs"
      using assms(1) by (metis length_take min.absorb2 order_refl take_all)
    with True x False show ?thesis by (simp add: node_cmp_def)
  next
    case z: True
    with x have le: "unat len \<le> length bs" and tk: "take (unat len) s = take (unat len) bs"
      by auto
    from byte_at_name [OF assms(3) le] obtain c where
      c: "byte_at (bs @ [0]) (unat len) = Some c" "c = 0 \<longleftrightarrow> unat len = length bs"
      by blast
    have "take (unat len) s = bs \<longleftrightarrow> unat len = length bs"
      using tk le assms(1) by (metis length_take min.absorb2 take_all order_refl)
    with True x z c show ?thesis by (simp add: node_cmp_def)
  qed
qed

subsection \<open>The search on the tree\<close>

lemma node_okD:
  assumes "node_ok H (a, nh, nm)"
  obtains bs where "nm = bs @ [0]" "0 \<notin> set bs" "length bs \<le> unat MAX_SYM_LEN"
    "hash_symbol H bs (of_nat (length bs)) = Some nh"
proof -
  from assms have "nm \<noteq> []" "last nm = 0" by (simp_all add: node_ok_def)
  then have "nm = butlast nm @ [0]" by (metis append_butlast_last_id)
  with assms that [of "butlast nm"] show thesis
    by (simp add: node_ok_def name_of_def)
qed

lemma node_cmp_ok:
  assumes "node_ok H (a, nh, nm)" "memchr str 0 (unat len) = Some False"
  shows "\<exists>x. node_cmp h str len nh nm
           = Some (x, h = nh \<and> take (unat len) str @ [0] = nm)"
proof -
  from assms(1) obtain bs where bs: "nm = bs @ [0]" "0 \<notin> set bs"
    by (rule node_okD)
  from assms(2) have "unat len \<le> length str" "0 \<notin> set (take (unat len) str)"
    by (simp_all add: memchr_False_iff)
  from node_cmp_name [OF this bs(2), of h nh] bs(1) show ?thesis by simp
qed

lemma tfind_total:
  assumes "\<forall>v \<in> set_tree t. node_ok H v" "memchr str 0 (unat len) = Some False"
  shows "\<exists>r sl'. tfind h str len sl t = Some (r, sl')"
  using assms(1)
proof (induction t arbitrary: sl)
  case Leaf
  then show ?case by simp
next
  case (Node l v r)
  obtain a nh nm where v: "v = (a, nh, nm)" by (cases v)
  with Node.prems have "node_ok H (a, nh, nm)" by simp
  from node_cmp_ok [OF this assms(2), of h] obtain x hit where
    "node_cmp h str len nh nm = Some (x, hit)" by blast
  with v Node.IH [of "LeftOf a"] Node.IH(2) [of "RightOf a"] Node.prems
  show ?case by simp
qed

lemma tfind_hit:
  assumes "\<forall>v \<in> set_tree t. node_ok H v" "memchr str 0 (unat len) = Some False"
    "tfind h str len sl t = Some (Some a, sl')"
  shows "(a, h, take (unat len) str @ [0]) \<in> set_tree t"
  using assms(1,3)
proof (induction t arbitrary: sl)
  case Leaf
  then show ?case by simp
next
  case (Node l v r)
  obtain b nh nm where v: "v = (b, nh, nm)" by (cases v)
  with Node.prems have "node_ok H (b, nh, nm)" by simp
  from node_cmp_ok [OF this assms(2), of h] obtain x where
    x: "node_cmp h str len nh nm = Some (x, h = nh \<and> take (unat len) str @ [0] = nm)"
    by blast
  show ?case
  proof (cases "h = nh \<and> take (unat len) str @ [0] = nm")
    case True
    with x v Node.prems show ?thesis by simp
  next
    case False
    with x v Node.prems Node.IH(1) [of "LeftOf b"] Node.IH(2) [of "RightOf b"]
    show ?thesis by (auto split: if_splits)
  qed
qed

lemma loop_tfind:
  assumes "htree (mem st) p t"
  shows "lookup_loop st h str len sl p = tfind h str len sl t"
  using assms
proof (induction t arbitrary: p sl)
  case Leaf
  then show ?case by (simp add: lookup_loop.simps)
next
  case (Node l v r)
  obtain a nh nm where v: "v = (a, nh, nm)" by (cases v)
  from Node.prems v obtain n where n: "p = Some a" "mem st a = Some n"
    "sym_hash n = nh" "sym_name n = nm"
    "htree (mem st) (sym_left n) l" "htree (mem st) (sym_right n) r"
    by (auto split: option.splits)
  have ll: "load st (LeftOf a) = Some (sym_left n)" and lr: "load st (RightOf a) = Some (sym_right n)"
    using n(2) by (simp_all add: load_def)
  show ?case
    using n v ll lr Node.IH(1) [OF n(5), of "LeftOf a"] Node.IH(2) [OF n(6), of "RightOf a"]
    by (subst lookup_loop.simps) (simp split: option.splits)
qed

lemma tfind_miss_load:
  assumes "htree (mem st) p t" "load st sl = Some p" "tfind h str len sl t = Some (None, sl')"
  shows "load st sl' = Some None"
  using assms
proof (induction t arbitrary: p sl)
  case Leaf
  then show ?case by simp
next
  case (Node l v r)
  obtain a nh nm where v: "v = (a, nh, nm)" by (cases v)
  from Node.prems(1) v obtain n where n: "p = Some a" "mem st a = Some n"
    "htree (mem st) (sym_left n) l" "htree (mem st) (sym_right n) r"
    by (auto split: option.splits)
  have ll: "load st (LeftOf a) = Some (sym_left n)" and lr: "load st (RightOf a) = Some (sym_right n)"
    using n(2) by (simp_all add: load_def)
  from Node.prems(3) v obtain x where x: "node_cmp h str len nh nm = Some (x, False)"
    by (auto split: option.splits if_splits)
  show ?case
  proof (cases "x < 0")
    case True
    with Node.prems(3) v x have "tfind h str len (LeftOf a) l = Some (None, sl')" by simp
    from Node.IH(1) [OF n(3) ll this] show ?thesis .
  next
    case False
    with Node.prems(3) v x have "tfind h str len (RightOf a) r = Some (None, sl')" by simp
    from Node.IH(2) [OF n(4) lr this] show ?thesis .
  qed
qed

subsection \<open>Insertion on the tree\<close>

lemma set_tree_tinsert:
  assumes "tfind h str len sl t = Some (None, sl')"
  shows "set_tree (tinsert h str len v t) = insert v (set_tree t)"
  using assms
proof (induction t arbitrary: sl)
  case Leaf
  then show ?case by simp
next
  case (Node l w r)
  obtain b nh nm where w: "w = (b, nh, nm)" by (cases w)
  from Node.prems w obtain x where x: "node_cmp h str len nh nm = Some (x, False)"
    by (auto split: option.splits if_splits)
  show ?case
  proof (cases "x < 0")
    case True
    with Node.prems w x have "tfind h str len (LeftOf b) l = Some (None, sl')" by simp
    from Node.IH(1) [OF this] w x True show ?thesis by auto
  next
    case False
    with Node.prems w x have "tfind h str len (RightOf b) r = Some (None, sl')" by simp
    from Node.IH(2) [OF this] w x False show ?thesis by auto
  qed
qed

lemma addrs_tinsert:
  assumes "tfind h str len sl t = Some (None, sl')"
  shows "addrs (tinsert h str len v t) = insert (fst v) (addrs t)"
  by (simp add: addrs_def set_tree_tinsert [OF assms])

lemma tfind_tinsert_old:
  assumes "tfind h2 str2 len2 sl t = Some (Some c, s2)"
  shows "tfind h2 str2 len2 sl (tinsert h str len v t) = Some (Some c, s2)"
  using assms
proof (induction t arbitrary: sl)
  case Leaf
  then show ?case by simp
next
  case (Node l w r)
  obtain b nh nm where w: "w = (b, nh, nm)" by (cases w)
  from Node.prems w obtain x hit where x: "node_cmp h2 str2 len2 nh nm = Some (x, hit)"
    by (auto split: option.splits)
  show ?case
  proof (cases hit)
    case True
    with Node.prems w x show ?thesis by (simp split: option.splits)
  next
    case False
    show ?thesis
    proof (cases "x < 0")
      case True
      with Node.prems w x False
      have "tfind h2 str2 len2 (LeftOf b) l = Some (Some c, s2)" by simp
      from Node.IH(1) [OF this] this w x False True show ?thesis
        by (simp split: option.splits)
    next
      case ge: False
      with Node.prems w x False
      have "tfind h2 str2 len2 (RightOf b) r = Some (Some c, s2)" by simp
      from Node.IH(2) [OF this] this w x False ge show ?thesis
        by (simp split: option.splits)
    qed
  qed
qed

lemma tfind_tinsert_new:
  assumes "tfind h str len sl t = Some (None, sl')"
    "node_cmp h str len vh vnm = Some (y, True)"
  shows "tfind h str len sl (tinsert h str len (a, vh, vnm) t) = Some (Some a, sl')"
  using assms(1)
proof (induction t arbitrary: sl)
  case Leaf
  with assms(2) show ?case by simp
next
  case (Node l w r)
  obtain b nh nm where w: "w = (b, nh, nm)" by (cases w)
  from Node.prems w obtain x where x: "node_cmp h str len nh nm = Some (x, False)"
    by (auto split: option.splits if_splits)
  show ?case
  proof (cases "x < 0")
    case True
    with Node.prems w x have "tfind h str len (LeftOf b) l = Some (None, sl')" by simp
    from Node.IH(1) [OF this] w x True show ?thesis by simp
  next
    case False
    with Node.prems w x have "tfind h str len (RightOf b) r = Some (None, sl')" by simp
    from Node.IH(2) [OF this] w x False show ?thesis by simp
  qed
qed

subsection \<open>Insertion in the store\<close>

lemma htree_frame:
  assumes "htree m p t" "\<forall>a \<in> addrs t. m' a = m a"
  shows "htree m' p t"
  using assms
proof (induction t arbitrary: p)
  case Leaf
  then show ?case by simp
next
  case (Node l v r)
  obtain a nh nm where v: "v = (a, nh, nm)" by (cases v)
  from Node.prems(1) v obtain n where n: "p = Some a" "m a = Some n"
    "sym_hash n = nh" "sym_name n = nm" "htree m (sym_left n) l" "htree m (sym_right n) r"
    "a \<notin> addrs l" "a \<notin> addrs r" "addrs l \<inter> addrs r = {}"
    by (auto split: option.splits)
  from Node.prems(2) v have eq: "m' a = m a" "\<forall>a \<in> addrs l. m' a = m a" "\<forall>a \<in> addrs r. m' a = m a"
    by (auto simp: addrs_def)
  from Node.IH(1) [OF n(5) eq(2)] Node.IH(2) [OF n(6) eq(3)] n eq(1) v
  show ?case by simp
qed

lemma htree_upd2:
  assumes "htree m p t" "a \<notin> addrs t" "b \<notin> addrs t"
  shows "htree (m(a \<mapsto> x, b \<mapsto> y)) p t"
  using assms(1) by (rule htree_frame) (use assms(2,3) in auto)

lemma htree_Node_iff:
  "htree m p (Node l (c, nh, nm) r) \<longleftrightarrow>
     p = Some c \<and>
     (\<exists>n. m c = Some n \<and> sym_hash n = nh \<and> sym_name n = nm \<and>
          htree m (sym_left n) l \<and> htree m (sym_right n) r) \<and>
     c \<notin> addrs l \<and> c \<notin> addrs r \<and> addrs l \<inter> addrs r = {}"
  by (auto split: option.splits)

lemma addrs_Node: "addrs (Node l (c, nh, nm) r) = insert c (addrs l \<union> addrs r)"
  by (auto simp: addrs_def)

lemma addrs_Leaf: "addrs Leaf = {}"
  by (simp add: addrs_def)

lemma htree_insert:
  fixes vh :: uintptr_t and vnm :: "byte list"
  assumes "htree m p t" "tfind h str len sl t = Some (None, sl')"
    "a \<notin> addrs t" "t \<noteq> Leaf"
  defines "new \<equiv> \<lparr>sym_left = None, sym_right = None, sym_hash = vh, sym_name = vnm\<rparr>"
  shows "\<exists>b n. b \<in> addrs t \<and> m b = Some n \<and>
           ((sl' = LeftOf b \<and>
             htree (m(a \<mapsto> new, b \<mapsto> n\<lparr>sym_left := Some a\<rparr>)) p
               (tinsert h str len (a, vh, vnm) t)) \<or>
            (sl' = RightOf b \<and>
             htree (m(a \<mapsto> new, b \<mapsto> n\<lparr>sym_right := Some a\<rparr>)) p
               (tinsert h str len (a, vh, vnm) t)))"
  using assms(1-4)
proof (induction t arbitrary: p sl)
  case Leaf
  then show ?case by simp
next
  case (Node l w r)
  obtain c nh nm where w: "w = (c, nh, nm)" by (cases w)
  from Node.prems(1) obtain n0 where n0: "p = Some c" "m c = Some n0"
    "sym_hash n0 = nh" "sym_name n0 = nm" "htree m (sym_left n0) l" "htree m (sym_right n0) r"
    "c \<notin> addrs l" "c \<notin> addrs r" "addrs l \<inter> addrs r = {}"
    unfolding w htree_Node_iff by blast
  from Node.prems(3) have fresh: "a \<noteq> c" "a \<notin> addrs l" "a \<notin> addrs r"
    unfolding w addrs_Node by auto
  from Node.prems(2) w obtain x where x: "node_cmp h str len nh nm = Some (x, False)"
    by (auto split: option.splits if_splits)
  let ?v = "(a, vh, vnm)"
  have anew: "htree (m(a \<mapsto> new, c \<mapsto> n')) (Some a) (Node Leaf ?v Leaf)" for n'
    using fresh(1) by (simp add: new_def addrs_Leaf)
  show ?case
  proof (cases "x < 0")
    case True
    with Node.prems(2) w x have fl: "tfind h str len (LeftOf c) l = Some (None, sl')" by simp
    have tins: "tinsert h str len ?v (Node l w r) = Node (tinsert h str len ?v l) (c, nh, nm) r"
      using w x True by simp
    show ?thesis
    proof (cases "l = Leaf")
      case lf: True
      with fl have sl': "sl' = LeftOf c" by simp
      let ?m = "m(a \<mapsto> new, c \<mapsto> n0\<lparr>sym_left := Some a\<rparr>)"
      have "htree ?m (sym_right n0) r"
        using n0(6) fresh(3) n0(8) by (rule htree_upd2)
      then have "htree ?m p (Node (Node Leaf ?v Leaf) (c, nh, nm) r)"
        unfolding htree_Node_iff [of ?m p]
        using anew n0 fresh by (simp add: addrs_Node addrs_Leaf)
      then have "htree ?m p (tinsert h str len ?v (Node l w r))"
        using tins lf by simp
      moreover have "c \<in> addrs (Node l w r)" unfolding w addrs_Node by simp
      ultimately show ?thesis using sl' n0(2) by blast
    next
      case nl: False
      from Node.IH(1) [OF n0(5) fl fresh(2) nl] obtain b n where
        b: "b \<in> addrs l" "m b = Some n" and
        d: "(sl' = LeftOf b \<and>
             htree (m(a \<mapsto> new, b \<mapsto> n\<lparr>sym_left := Some a\<rparr>)) (sym_left n0)
               (tinsert h str len ?v l)) \<or>
            (sl' = RightOf b \<and>
             htree (m(a \<mapsto> new, b \<mapsto> n\<lparr>sym_right := Some a\<rparr>)) (sym_left n0)
               (tinsert h str len ?v l))"
        by blast
      from b(1) n0(7,9) have bne: "b \<noteq> c" "b \<notin> addrs r" by auto
      have ai: "addrs (tinsert h str len ?v l) = insert a (addrs l)"
        using addrs_tinsert [OF fl] by simp
      have up: "htree (m(a \<mapsto> new, b \<mapsto> n')) p (tinsert h str len ?v (Node l w r))"
        if "htree (m(a \<mapsto> new, b \<mapsto> n')) (sym_left n0) (tinsert h str len ?v l)" for n'
      proof -
        have "htree (m(a \<mapsto> new, b \<mapsto> n')) (sym_right n0) r"
          using n0(6) fresh(3) bne(2) by (rule htree_upd2)
        moreover have "(m(a \<mapsto> new, b \<mapsto> n')) c = Some n0"
          using n0(2) bne(1) fresh(1) by simp
        ultimately show ?thesis
          unfolding tins htree_Node_iff ai
          using that n0 fresh by auto
      qed
      have "b \<in> addrs (Node l w r)" using b(1) unfolding w addrs_Node by simp
      with d up b(2) show ?thesis by blast
    qed
  next
    case False
    with Node.prems(2) w x have fl: "tfind h str len (RightOf c) r = Some (None, sl')" by simp
    have tins: "tinsert h str len ?v (Node l w r) = Node l (c, nh, nm) (tinsert h str len ?v r)"
      using w x False by simp
    show ?thesis
    proof (cases "r = Leaf")
      case lf: True
      with fl have sl': "sl' = RightOf c" by simp
      let ?m = "m(a \<mapsto> new, c \<mapsto> n0\<lparr>sym_right := Some a\<rparr>)"
      have "htree ?m (sym_left n0) l"
        using n0(5) fresh(2) n0(7) by (rule htree_upd2)
      then have "htree ?m p (Node l (c, nh, nm) (Node Leaf ?v Leaf))"
        unfolding htree_Node_iff [of ?m p]
        using anew n0 fresh by (simp add: addrs_Node addrs_Leaf)
      then have "htree ?m p (tinsert h str len ?v (Node l w r))"
        using tins lf by simp
      moreover have "c \<in> addrs (Node l w r)" unfolding w addrs_Node by simp
      ultimately show ?thesis using sl' n0(2) by blast
    next
      case nl: False
      from Node.IH(2) [OF n0(6) fl fresh(3) nl] obtain b n where
        b: "b \<in> addrs r" "m b = Some n" and
        d: "(sl' = LeftOf b \<and>
             htree (m(a \<mapsto> new, b \<mapsto> n\<lparr>sym_left := Some a\<rparr>)) (sym_right n0)
               (tinsert h str len ?v r)) \<or>
            (sl' = RightOf b \<and>
             htree (m(a \<mapsto> new, b \<mapsto> n\<lparr>sym_right := Some a\<rparr>)) (sym_right n0)
               (tinsert h str len ?v r))"
        by blast
      from b(1) n0(8,9) have bne: "b \<noteq> c" "b \<notin> addrs l" by auto
      have ai: "addrs (tinsert h str len ?v r) = insert a (addrs r)"
        using addrs_tinsert [OF fl] by simp
      have up: "htree (m(a \<mapsto> new, b \<mapsto> n')) p (tinsert h str len ?v (Node l w r))"
        if "htree (m(a \<mapsto> new, b \<mapsto> n')) (sym_right n0) (tinsert h str len ?v r)" for n'
      proof -
        have "htree (m(a \<mapsto> new, b \<mapsto> n')) (sym_left n0) l"
          using n0(5) fresh(2) bne(2) by (rule htree_upd2)
        moreover have "(m(a \<mapsto> new, b \<mapsto> n')) c = Some n0"
          using n0(2) bne(1) fresh(1) by simp
        ultimately show ?thesis
          unfolding tins htree_Node_iff ai
          using that n0 fresh by auto
      qed
      have "b \<in> addrs (Node l w r)" using b(1) unfolding w addrs_Node by simp
      with d up b(2) show ?thesis by blast
    qed
  qed
qed

subsection \<open>Sizes\<close>

lemma MAX_SYM_LEN_val: "MAX_SYM_LEN = 9223372036854775774"
  by (simp add: MAX_SYM_LEN_def INTPTR_MAX_def sizeof_jl_sym_t_def sizeof_jl_taggedvalue_t_def)

lemma unat_MAX_SYM_LEN: "unat MAX_SYM_LEN = 9223372036854775774"
  by (simp add: MAX_SYM_LEN_val)

lemma le_MAX_SYM_LEN: "len \<le> MAX_SYM_LEN \<longleftrightarrow> unat len \<le> 9223372036854775774"
  by (simp add: word_le_nat_alt unat_MAX_SYM_LEN)

lemma neg8: "(- 8 :: size_t) = NOT (mask 3)"
  by (simp add: mask_eq_exp_minus_1)

lemma and_neg8: "(x :: size_t) AND (- 8) = push_bit 3 (drop_bit 3 x)"
  unfolding neg8 by (rule bit_eqI) (auto simp add: bit_simps)

lemma unat_and_neg8: "unat ((x :: size_t) AND (- 8)) = (unat x div 8) * 8"
proof -
  have a: "push_bit 3 (drop_bit 3 x) = (x div 8) * 8"
    by (simp add: push_bit_eq_mult drop_bit_eq_div)
  have b: "unat (x div 8) = unat x div 8"
    by (simp add: unat_div)
  have "unat x div 8 * 8 \<le> unat x" by simp
  moreover have "unat x < 2 ^ 64" using unsigned_less [of x] by simp
  ultimately have c: "unat (x div 8) * unat (8 :: size_t) < 2 ^ LENGTH(64)"
    by (simp add: b)
  have "unat ((x div 8) * 8) = unat (x div 8) * unat (8 :: size_t)"
    using c by (simp only: unat_mult_lem [THEN iffD1])
  then show ?thesis by (simp add: and_neg8 a b)
qed

lemma unat_header_plus:
  assumes "len \<le> MAX_SYM_LEN"
  shows "unat (sizeof_jl_sym_t + len + 1 + 7) = unat len + 32"
proof -
  from assms have le: "unat len \<le> 9223372036854775774" by (simp add: le_MAX_SYM_LEN)
  have e: "sizeof_jl_sym_t + len + 1 + 7 = len + 32" by (simp add: sizeof_jl_sym_t_def)
  have "unat (len + 32) = unat len + unat (32 :: size_t)"
    using le by (subst unat_add_lem [THEN iffD1]) simp_all
  then show ?thesis unfolding e by simp
qed

lemma unat_symbol_nbytes:
  assumes "len \<le> MAX_SYM_LEN"
  shows "unat (symbol_nbytes len) = (unat len + 32) div 8 * 8"
  unfolding symbol_nbytes_def unat_and_neg8 unat_header_plus [OF assms] ..

lemma symbol_nbytes_pos:
  assumes "len \<le> MAX_SYM_LEN"
  shows "0 < unat (symbol_nbytes len)"
  unfolding unat_symbol_nbytes [OF assms] by simp

subsection \<open>Interning on the store\<close>

lemma hash_symbol_take:
  assumes "unat len \<le> length str"
  shows "hash_symbol H (take (unat len) str) len = hash_symbol H str len"
  using assms by (simp add: hash_symbol_def bytes_at_def)

lemma hash_symbol_total:
  assumes "unat len \<le> length str"
  shows "\<exists>h. hash_symbol H str len = Some h"
  using assms by (simp add: hash_symbol_def bytes_at_def Let_def)

lemma strncmp_take: "n \<le> length s \<Longrightarrow> strncmp (take n s) t n = strncmp s t n"
  by (induction s t n rule: strncmp.induct) auto

lemma node_cmp_take:
  "unat len \<le> length s \<Longrightarrow> node_cmp h (take (unat len) s) len nh nm = node_cmp h s len nh nm"
  by (simp add: node_cmp_def strncmp_take cong: if_cong)

lemma tfind_take:
  "unat len \<le> length s \<Longrightarrow> tfind h (take (unat len) s) len sl t = tfind h s len sl t"
  by (induction t arbitrary: sl) (auto simp: node_cmp_take split: option.splits)

lemma htree_mem:
  assumes "htree m p t" "(a, nh, nm) \<in> set_tree t"
  shows "\<exists>n. m a = Some n \<and> sym_hash n = nh \<and> sym_name n = nm"
  using assms
proof (induction t arbitrary: p)
  case Leaf
  then show ?case by simp
next
  case (Node l w r)
  obtain c ch cnm where w: "w = (c, ch, cnm)" by (cases w)
  from Node.prems(1) obtain n0 where n0: "m c = Some n0"
    "sym_hash n0 = ch" "sym_name n0 = cnm" "htree m (sym_left n0) l" "htree m (sym_right n0) r"
    unfolding w htree_Node_iff by blast
  from Node.prems(2) consider "(a, nh, nm) = w" | "(a, nh, nm) \<in> set_tree l"
    | "(a, nh, nm) \<in> set_tree r" by auto
  then show ?case
  proof cases
    case 1
    with w n0 show ?thesis by simp
  next
    case 2
    from Node.IH(1) [OF n0(4) 2] show ?thesis .
  next
    case 3
    from Node.IH(2) [OF n0(5) 3] show ?thesis .
  qed
qed

lemma symtab_lookup_tfind:
  assumes "htree (mem st) (symtab st) t" "hash_symbol H str len = Some h"
  shows "symtab_lookup H st Root str len = tfind h str len Root t"
  using assms by (simp add: symtab_lookup_def load_def loop_tfind)

lemma not_too_long: "len \<le> MAX_SYM_LEN \<Longrightarrow> \<not> MAX_SYM_LEN < len"
  by simp

lemma jl_symbol_raw_hit:
  assumes "len \<le> MAX_SYM_LEN" "memchr str 0 (unat len) = Some False"
    "symtab_lookup H st Root str len = Some (Some a, sl)"
  shows "jl_symbol_raw H st str len = Some (Inr a, st)"
  using assms by (simp add: jl_symbol_raw_def not_too_long)

lemma jl_symbol_raw_miss:
  assumes "len \<le> MAX_SYM_LEN" "memchr str 0 (unat len) = Some False"
    "symtab_lookup H st Root str len = Some (None, sl)"
    "load st sl = Some None"
    "mk_symbol H st str len = Some (a, st1)"
    "store st1 sl (Some a) = Some st2"
  shows "jl_symbol_raw H st str len = Some (Inr a, st2)"
  using assms by (simp add: jl_symbol_raw_def not_too_long)

lemma mk_symbol_eq:
  assumes "unat len \<le> length str" "hash_symbol H str len = Some h"
  shows "mk_symbol H st str len =
     Some (perm_next st,
       st\<lparr>perm_next := perm_next st + unat (symbol_nbytes len),
          mem := (mem st)(perm_next st \<mapsto>
            \<lparr>sym_left = None, sym_right = None, sym_hash = h,
             sym_name = take (unat len) str @ [0]\<rparr>)\<rparr>)"
  using assms by (simp add: mk_symbol_def jl_gc_permobj_def bytes_at_def)

lemma jl_symbol_raw_tree:
  assumes ht: "htree (mem st) (symtab st) t"
    and ok: "\<forall>v \<in> set_tree t. node_ok H v"
    and dom: "\<forall>a. mem st a \<noteq> None \<longleftrightarrow> a \<in> addrs t"
    and below: "\<forall>a \<in> addrs t. a < perm_next st"
    and len: "len \<le> MAX_SYM_LEN"
    and nul: "memchr str 0 (unat len) = Some False"
    and h: "hash_symbol H str len = Some h"
  shows "\<exists>a st' t'. jl_symbol_raw H st str len = Some (Inr a, st') \<and>
           htree (mem st') (symtab st') t' \<and>
           (\<forall>a. mem st' a \<noteq> None \<longleftrightarrow> a \<in> addrs t') \<and>
           (\<forall>a \<in> addrs t'. a < perm_next st') \<and>
           gs_ctr st' = gs_ctr st \<and>
           ((\<exists>sl. tfind h str len Root t = Some (Some a, sl) \<and> st' = st \<and> t' = t) \<or>
            (\<exists>sl. tfind h str len Root t = Some (None, sl) \<and> a = perm_next st \<and>
                  t' = tinsert h str len (a, h, take (unat len) str @ [0]) t \<and>
                  perm_next st' = perm_next st + unat (symbol_nbytes len)))"
proof -
  from nul have inb: "unat len \<le> length str" by (simp add: memchr_False_iff)
  from tfind_total [OF ok nul] obtain r sl where tf: "tfind h str len Root t = Some (r, sl)"
    by blast
  have lk: "symtab_lookup H st Root str len = Some (r, sl)"
    using symtab_lookup_tfind [OF ht h] tf by simp
  show ?thesis
  proof (cases r)
    case (Some a)
    from jl_symbol_raw_hit [OF len nul] lk Some
    have "jl_symbol_raw H st str len = Some (Inr a, st)" by simp
    with ht dom below tf Some show ?thesis by blast
  next
    case None
    let ?a = "perm_next st"
    let ?nm = "take (unat len) str @ [0]"
    let ?new = "\<lparr>sym_left = None, sym_right = None, sym_hash = h, sym_name = ?nm\<rparr>"
    let ?st1 = "st\<lparr>perm_next := ?a + unat (symbol_nbytes len), mem := (mem st)(?a \<mapsto> ?new)\<rparr>"
    let ?t' = "tinsert h str len (?a, h, ?nm) t"
    have mk: "mk_symbol H st str len = Some (?a, ?st1)"
      by (rule mk_symbol_eq [OF inb h])
    have fresh: "?a \<notin> addrs t" using below by auto
    have ld: "load st sl = Some None"
      using tfind_miss_load [OF ht _ tf [unfolded None]] by (simp add: load_def)
    have at': "addrs ?t' = insert ?a (addrs t)"
      using addrs_tinsert [OF tf [unfolded None]] by simp
    have pos: "0 < unat (symbol_nbytes len)" by (rule symbol_nbytes_pos [OF len])
    have "\<exists>st2. store ?st1 sl (Some ?a) = Some st2 \<and> htree (mem st2) (symtab st2) ?t' \<and>
            (\<forall>a. mem st2 a \<noteq> None \<longleftrightarrow> a \<in> addrs ?t') \<and>
            perm_next st2 = ?a + unat (symbol_nbytes len) \<and> gs_ctr st2 = gs_ctr st"
    proof (cases "t = Leaf")
      case True
      with tf have sl: "sl = Root" by simp
      from True ht have "symtab st = None" by simp
      with True sl dom show ?thesis
        by (simp add: store_def addrs_Leaf addrs_def)
    next
      case False
      from htree_insert [OF ht tf [unfolded None] fresh False, of h ?nm]
      obtain b n where b: "b \<in> addrs t" "mem st b = Some n" and
        d: "(sl = LeftOf b \<and>
             htree ((mem st)(?a \<mapsto> ?new, b \<mapsto> n\<lparr>sym_left := Some ?a\<rparr>)) (symtab st) ?t') \<or>
            (sl = RightOf b \<and>
             htree ((mem st)(?a \<mapsto> ?new, b \<mapsto> n\<lparr>sym_right := Some ?a\<rparr>)) (symtab st) ?t')"
        by blast
      from b(1) fresh have ne: "b \<noteq> ?a" by auto
      have dom': "(((mem st)(?a \<mapsto> ?new, b \<mapsto> n')) x \<noteq> None) = (x \<in> addrs ?t')" for n' x
        using dom b(1) at' by auto
      from d show ?thesis
      proof
        assume l: "sl = LeftOf b \<and>
             htree ((mem st)(?a \<mapsto> ?new, b \<mapsto> n\<lparr>sym_left := Some ?a\<rparr>)) (symtab st) ?t'"
        then have "store ?st1 sl (Some ?a)
            = Some (?st1\<lparr>mem := (mem ?st1)(b \<mapsto> n\<lparr>sym_left := Some ?a\<rparr>)\<rparr>)"
          using b(2) ne by (simp add: store_def)
        with l dom' show ?thesis by simp
      next
        assume r: "sl = RightOf b \<and>
             htree ((mem st)(?a \<mapsto> ?new, b \<mapsto> n\<lparr>sym_right := Some ?a\<rparr>)) (symtab st) ?t'"
        then have "store ?st1 sl (Some ?a)
            = Some (?st1\<lparr>mem := (mem ?st1)(b \<mapsto> n\<lparr>sym_right := Some ?a\<rparr>)\<rparr>)"
          using b(2) ne by (simp add: store_def)
        with r dom' show ?thesis by simp
      qed
    qed
    then obtain st2 where st2: "store ?st1 sl (Some ?a) = Some st2"
      "htree (mem st2) (symtab st2) ?t'" "\<forall>a. mem st2 a \<noteq> None \<longleftrightarrow> a \<in> addrs ?t'"
      "perm_next st2 = ?a + unat (symbol_nbytes len)" "gs_ctr st2 = gs_ctr st"
      by blast
    have "jl_symbol_raw H st str len = Some (Inr ?a, st2)"
      using jl_symbol_raw_miss [OF len nul _ ld mk st2(1)] lk None by simp
    moreover have "\<forall>a \<in> addrs ?t'. a < perm_next st2"
      using below pos st2(4) at' by auto
    ultimately show ?thesis using st2(2,3,4,5) tf None by blast
  qed
qed

subsection \<open>The invariant\<close>

lemma interned_tree:
  assumes "htree (mem st) p t" "\<forall>a. mem st a \<noteq> None \<longleftrightarrow> a \<in> addrs t"
  shows "interned st = (\<lambda>v. name_of (snd (snd v))) ` set_tree t"
proof (rule set_eqI, rule iffI)
  fix x
  assume "x \<in> interned st"
  then obtain a n where n: "mem st a = Some n" "x = name_of (sym_name n)"
    by (auto simp: interned_def ran_def)
  with assms(2) have "a \<in> addrs t" by (metis option.distinct(1))
  then obtain nh nm where v: "(a, nh, nm) \<in> set_tree t" by (auto simp: addrs_def)
  from htree_mem [OF assms(1) v] n have "sym_name n = nm" by auto
  with n v show "x \<in> (\<lambda>v. name_of (snd (snd v))) ` set_tree t" by force
next
  fix x
  assume "x \<in> (\<lambda>v. name_of (snd (snd v))) ` set_tree t"
  then obtain a nh nm where v: "(a, nh, nm) \<in> set_tree t" "x = name_of nm" by auto
  from htree_mem [OF assms(1) v(1)] obtain n where "mem st a = Some n" "sym_name n = nm"
    by blast
  with v(2) show "x \<in> interned st" by (auto simp: interned_def ran_def)
qed

lemma node_cmp_self:
  assumes "unat len \<le> length str" "0 \<notin> set (take (unat len) str)"
  shows "\<exists>y. node_cmp h str len h (take (unat len) str @ [0]) = Some (y, True)"
  using node_cmp_name [OF assms(1,2), of "take (unat len) str" h h] assms(2) by simp

lemma symtab_lookup_hit_tfind:
  assumes "htree (mem st) (symtab st) t" "symtab_lookup H st Root s2 l2 = Some (Some c, sl2)"
  shows "\<exists>h2. hash_symbol H s2 l2 = Some h2 \<and> tfind h2 s2 l2 Root t = Some (Some c, sl2)"
proof -
  from assms(2) obtain h2 where h2: "hash_symbol H s2 l2 = Some h2"
    by (auto simp: symtab_lookup_def load_def split: option.splits)
  from symtab_lookup_tfind [OF assms(1) h2] assms(2) h2 show ?thesis by simp
qed

lemma jl_symbol_raw_inv:
  assumes inv: "symtab_inv H st"
    and len: "len \<le> MAX_SYM_LEN"
    and nul: "memchr str 0 (unat len) = Some False"
  shows "\<exists>a st' sl. jl_symbol_raw H st str len = Some (Inr a, st') \<and>
           symtab_inv H st' \<and>
           symtab_lookup H st' Root str len = Some (Some a, sl) \<and>
           (\<exists>n. mem st' a = Some n \<and> sym_name n = take (unat len) str @ [0]) \<and>
           gs_ctr st' = gs_ctr st \<and>
           (\<forall>s2 l2 c sl2. symtab_lookup H st Root s2 l2 = Some (Some c, sl2) \<longrightarrow>
              symtab_lookup H st' Root s2 l2 = Some (Some c, sl2)) \<and>
           (\<forall>b n. mem st b = Some n \<longrightarrow>
              (\<exists>n'. mem st' b = Some n' \<and> sym_name n' = sym_name n \<and> sym_hash n' = sym_hash n)) \<and>
           interned st' = insert (take (unat len) str) (interned st) \<and>
           (symtab_lookup H st Root str len = Some (Some a, sl) \<and> st' = st \<or>
            (\<exists>sl0. symtab_lookup H st Root str len = Some (None, sl0)) \<and>
            mem st a = None \<and> a = perm_next st \<and>
            perm_next st' = perm_next st + unat (symbol_nbytes len))"
proof -
  from inv obtain t where ht: "htree (mem st) (symtab st) t"
    and okf: "\<forall>v \<in> set_tree t. node_ok H v \<and> finds_itself t v"
    and dom: "\<forall>a. mem st a \<noteq> None \<longleftrightarrow> a \<in> addrs t"
    and below: "\<forall>a \<in> addrs t. a < perm_next st"
    unfolding symtab_inv_def by blast
  from okf have ok: "\<forall>v \<in> set_tree t. node_ok H v" by blast
  from nul have inb: "unat len \<le> length str" and nz: "0 \<notin> set (take (unat len) str)"
    by (simp_all add: memchr_False_iff)
  from hash_symbol_total [OF inb] obtain h where h: "hash_symbol H str len = Some h"
    by blast
  let ?nm = "take (unat len) str @ [0]"
  from jl_symbol_raw_tree [OF ht ok dom below len nul h]
  obtain a st' t' where raw: "jl_symbol_raw H st str len = Some (Inr a, st')"
    and ht': "htree (mem st') (symtab st') t'"
    and dom': "\<forall>a. mem st' a \<noteq> None \<longleftrightarrow> a \<in> addrs t'"
    and below': "\<forall>a \<in> addrs t'. a < perm_next st'"
    and ctr: "gs_ctr st' = gs_ctr st"
    and cases: "(\<exists>sl. tfind h str len Root t = Some (Some a, sl) \<and> st' = st \<and> t' = t) \<or>
            (\<exists>sl. tfind h str len Root t = Some (None, sl) \<and> a = perm_next st \<and>
                  t' = tinsert h str len (a, h, ?nm) t \<and>
                  perm_next st' = perm_next st + unat (symbol_nbytes len))"
    by blast
  have lk: "symtab_lookup H st Root str len = tfind h str len Root t"
    by (rule symtab_lookup_tfind [OF ht h])
  have lk': "symtab_lookup H st' Root str len = tfind h str len Root t'"
    by (rule symtab_lookup_tfind [OF ht' h])
  from cases show ?thesis
  proof
    assume "\<exists>sl. tfind h str len Root t = Some (Some a, sl) \<and> st' = st \<and> t' = t"
    then obtain sl where hit: "tfind h str len Root t = Some (Some a, sl)" "st' = st" "t' = t"
      by blast
    from tfind_hit [OF ok nul hit(1)] have v: "(a, h, ?nm) \<in> set_tree t" .
    from htree_mem [OF ht v] have nm: "\<exists>n. mem st a = Some n \<and> sym_name n = ?nm" by blast
    have "take (unat len) str \<in> interned st"
      unfolding interned_tree [OF ht dom] using v by (force simp: name_of_def)
    then have "interned st = insert (take (unat len) str) (interned st)" by auto
    with raw inv lk hit nm show ?thesis by auto
  next
    assume "\<exists>sl. tfind h str len Root t = Some (None, sl) \<and> a = perm_next st \<and>
                  t' = tinsert h str len (a, h, ?nm) t \<and>
                  perm_next st' = perm_next st + unat (symbol_nbytes len)"
    then obtain sl where miss: "tfind h str len Root t = Some (None, sl)"
      and a: "a = perm_next st" and t': "t' = tinsert h str len (a, h, ?nm) t"
      and pn: "perm_next st' = perm_next st + unat (symbol_nbytes len)"
      by blast
    have st': "set_tree t' = insert (a, h, ?nm) (set_tree t)"
      unfolding t' by (rule set_tree_tinsert [OF miss])
    from node_cmp_self [OF inb nz] obtain y where
      y: "node_cmp h str len h ?nm = Some (y, True)" by blast
    have new: "tfind h str len Root t' = Some (Some a, sl)"
      unfolding t' by (rule tfind_tinsert_new [OF miss y])
    have lenid: "(of_nat (length (take (unat len) str)) :: size_t) = len"
      using inb by simp
    have ok_new: "node_ok H (a, h, ?nm)"
      using nz inb len h lenid
      by (simp add: node_ok_def name_of_def hash_symbol_take word_le_nat_alt)
    have fi_new: "finds_itself t' (a, h, ?nm)"
      using new lenid inb by (simp add: finds_itself_def name_of_def tfind_take)
    have fi_old: "finds_itself t' v" if "v \<in> set_tree t" for v
    proof -
      obtain c ch cnm where v: "v = (c, ch, cnm)" by (cases v)
      from okf that v have "finds_itself t (c, ch, cnm)" by blast
      then obtain s2 where
        "tfind ch (name_of cnm) (of_nat (length (name_of cnm))) Root t = Some (Some c, s2)"
        by (auto simp: finds_itself_def)
      then have
        "tfind ch (name_of cnm) (of_nat (length (name_of cnm))) Root t' = Some (Some c, s2)"
        unfolding t' by (rule tfind_tinsert_old)
      with v show ?thesis by (simp add: finds_itself_def)
    qed
    have inv': "symtab_inv H st'"
      unfolding symtab_inv_def
      using ht' dom' below' st' ok ok_new fi_new fi_old by (intro exI [of _ t']) auto
    have fresh: "mem st a = None"
      using dom below a by (metis less_irrefl)
    from htree_mem [OF ht', of a h ?nm] st'
    have nm: "\<exists>n. mem st' a = Some n \<and> sym_name n = ?nm" by auto
    have old_lk: "symtab_lookup H st' Root s2 l2 = Some (Some c, sl2)"
      if "symtab_lookup H st Root s2 l2 = Some (Some c, sl2)" for s2 l2 c sl2
    proof -
      from symtab_lookup_hit_tfind [OF ht that] obtain h2 where
        h2: "hash_symbol H s2 l2 = Some h2" "tfind h2 s2 l2 Root t = Some (Some c, sl2)"
        by blast
      have "tfind h2 s2 l2 Root t' = Some (Some c, sl2)"
        unfolding t' by (rule tfind_tinsert_old [OF h2(2)])
      with symtab_lookup_tfind [OF ht' h2(1)] show ?thesis by simp
    qed
    have old_mem: "\<exists>n'. mem st' b = Some n' \<and> sym_name n' = sym_name n \<and> sym_hash n' = sym_hash n"
      if "mem st b = Some n" for b n
    proof -
      from that dom have "b \<in> addrs t" by (metis option.distinct(1))
      then obtain nh nm where v: "(b, nh, nm) \<in> set_tree t" by (auto simp: addrs_def)
      from htree_mem [OF ht v] that have "sym_hash n = nh" "sym_name n = nm" by auto
      moreover from v st' have "(b, nh, nm) \<in> set_tree t'" by simp
      from htree_mem [OF ht' this] obtain n' where
        "mem st' b = Some n'" "sym_hash n' = nh" "sym_name n' = nm" by blast
      ultimately show ?thesis by simp
    qed
    have int: "interned st' = insert (take (unat len) str) (interned st)"
      unfolding interned_tree [OF ht dom] interned_tree [OF ht' dom'] st'
      by (simp add: name_of_def)
    have "(\<exists>sl0. symtab_lookup H st Root str len = Some (None, sl0)) \<and>
            mem st a = None \<and> a = perm_next st \<and>
            perm_next st' = perm_next st + unat (symbol_nbytes len)"
      using lk miss fresh a pn by simp
    moreover have "symtab_lookup H st' Root str len = Some (Some a, sl)"
      using lk' new by simp
    ultimately show ?thesis
      using raw inv' nm ctr old_lk old_mem int by blast
  qed
qed

subsection \<open>Reachable states\<close>

lemma symtab_inv_init: "symtab_inv H (symtab_init base)"
  unfolding symtab_inv_def symtab_init_def
  by (rule exI [of _ Leaf]) (simp add: addrs_Leaf)

lemma symtab_inv_gs_ctr: "symtab_inv H (st\<lparr>gs_ctr := c\<rparr>) = symtab_inv H st"
  by (simp add: symtab_inv_def)

lemma jl_symbol_raw_cases:
  assumes "jl_symbol_raw H st str len = Some (r, st')"
  shows "st' = st \<and> r = Inl NameTooLong \<and> MAX_SYM_LEN < len \<or>
         st' = st \<and> r = Inl AssertionFailed \<and> memchr str 0 (unat len) = Some True \<or>
         len \<le> MAX_SYM_LEN \<and> memchr str 0 (unat len) = Some False"
proof (cases "MAX_SYM_LEN < len")
  case True
  with assms show ?thesis by (simp add: jl_symbol_raw_def)
next
  case False
  then have le: "len \<le> MAX_SYM_LEN" by simp
  show ?thesis
  proof (cases "memchr str 0 (unat len)")
    case None
    with assms False show ?thesis by (simp add: jl_symbol_raw_def)
  next
    case (Some found)
    with assms False le show ?thesis by (cases found) (simp_all add: jl_symbol_raw_def)
  qed
qed

lemma jl_symbol_raw_pres:
  assumes "symtab_inv H st" "jl_symbol_raw H st str len = Some (r, st')"
  shows "symtab_inv H st'"
proof -
  from jl_symbol_raw_cases [OF assms(2)]
  consider "st' = st" | "len \<le> MAX_SYM_LEN" "memchr str 0 (unat len) = Some False"
    by blast
  then show ?thesis
  proof cases
    case 1
    with assms(1) show ?thesis by simp
  next
    case 2
    from jl_symbol_raw_inv [OF assms(1) 2] assms(2) show ?thesis by auto
  qed
qed

lemma jl_symbol_pres:
  assumes "symtab_inv H st" "jl_symbol H st str = Some (r, st')"
  shows "symtab_inv H st'"
  using assms
  by (auto simp: jl_symbol_def split: option.splits intro: jl_symbol_raw_pres)

lemma jl_symbol_n_pres:
  assumes "symtab_inv H st" "jl_symbol_n H st str len = Some (r, st')"
  shows "symtab_inv H st'"
  using assms
  by (auto simp: jl_symbol_n_def split: option.splits bool.splits intro: jl_symbol_raw_pres)

lemma jl_gensym_raw:
  assumes "jl_gensym H st = Some (r, st')"
  shows "\<exists>str len. jl_symbol_raw H (st\<lparr>gs_ctr := gs_ctr st + 1\<rparr>) str len = Some (r, st')"
  using assms
  by (auto simp: jl_gensym_def Let_def jl_symbol_def split: prod.splits option.splits)

lemma jl_tagged_gensym_raw:
  assumes "jl_tagged_gensym H st str len = Some (r, st')"
  shows "st' = st \<or>
    (\<exists>name n. jl_symbol_raw H (st\<lparr>gs_ctr := gs_ctr st + 1\<rparr>) name n = Some (r, st'))"
  using assms
  by (auto simp: jl_tagged_gensym_def Let_def
      split: prod.splits option.splits if_splits)

lemma jl_gensym_pres:
  assumes "symtab_inv H st" "jl_gensym H st = Some (r, st')"
  shows "symtab_inv H st'"
proof -
  from jl_gensym_raw [OF assms(2)] obtain str len where
    "jl_symbol_raw H (st\<lparr>gs_ctr := gs_ctr st + 1\<rparr>) str len = Some (r, st')" by blast
  moreover from assms(1) have "symtab_inv H (st\<lparr>gs_ctr := gs_ctr st + 1\<rparr>)"
    by (simp add: symtab_inv_gs_ctr)
  ultimately show ?thesis by (rule jl_symbol_raw_pres [rotated])
qed

lemma jl_tagged_gensym_pres:
  assumes "symtab_inv H st" "jl_tagged_gensym H st str len = Some (r, st')"
  shows "symtab_inv H st'"
proof -
  from jl_tagged_gensym_raw [OF assms(2)]
  consider "st' = st"
    | name n where "jl_symbol_raw H (st\<lparr>gs_ctr := gs_ctr st + 1\<rparr>) name n = Some (r, st')"
    by blast
  then show ?thesis
  proof cases
    case 1
    with assms(1) show ?thesis by simp
  next
    case 2
    moreover from assms(1) have "symtab_inv H (st\<lparr>gs_ctr := gs_ctr st + 1\<rparr>)"
      by (simp add: symtab_inv_gs_ctr)
    ultimately show ?thesis by (rule jl_symbol_raw_pres [rotated])
  qed
qed

lemma reachable_inv: "reachable H st \<Longrightarrow> symtab_inv H st"
proof (induction rule: reachable.induct)
  case (reach_init base)
  show ?case by (rule symtab_inv_init)
next
  case (reach_symbol_raw st str len r st')
  then show ?case by (blast intro: jl_symbol_raw_pres)
next
  case (reach_symbol st str r st')
  then show ?case by (blast intro: jl_symbol_pres)
next
  case (reach_symbol_n st str len r st')
  then show ?case by (blast intro: jl_symbol_n_pres)
next
  case (reach_gensym st r st')
  then show ?case by (blast intro: jl_gensym_pres)
next
  case (reach_tagged_gensym st str len r st')
  then show ?case by (blast intro: jl_tagged_gensym_pres)
next
  case (reach_set_gs_ctr st ctr)
  then show ?case by (simp add: jl_set_gs_ctr_def symtab_inv_gs_ctr)
qed

subsection \<open>Decimal digits and \<open>uint2str\<close>\<close>



lemma digit_char_decimal: "d < 10 \<Longrightarrow> digit_char d = 48 + of_nat d"
  by (simp add: digit_char_def)


lemma length_decimal_digits_pos: "0 < length (decimal_digits n)"
  by (subst decimal_digits.simps) simp

lemma length_decimal_digits:
  "n < 10 ^ k \<Longrightarrow> 0 < k \<Longrightarrow> length (decimal_digits n) \<le> k"
proof (induction n arbitrary: k rule: decimal_digits.induct)
  case (1 n)
  show ?case
  proof (cases "n < 10")
    case True
    with 1(3) show ?thesis by (subst decimal_digits.simps) simp
  next
    case False
    obtain j where k: "k = Suc j" using 1(3) by (cases k) auto
    have "0 < j"
    proof (rule ccontr)
      assume "\<not> 0 < j"
      with k 1(2) False show False by simp
    qed
    moreover have "n div 10 < 10 ^ j"
      using 1(2) k by (simp add: less_mult_imp_div_less mult.commute)
    ultimately have "length (decimal_digits (n div 10)) \<le> j"
      by (rule 1(1) [OF False, rotated])
    with False k show ?thesis by (subst decimal_digits.simps) simp
  qed
qed

lemma length_decimal_digits_u32: "length (decimal_digits (unat (c :: 32 word))) \<le> 10"
proof -
  have "unat c < 2 ^ 32" using unsigned_less [of c] by simp
  then have "unat c < 10 ^ 10" by simp
  then show ?thesis by (rule length_decimal_digits) simp
qed

lemma uint2str_loop_decimal:
  assumes "length (decimal_digits num) \<le> k" "k \<le> length dest"
  shows "uint2str_loop dest k num 10 =
     (take (k - length (decimal_digits num)) dest @ decimal_digits num @ drop k dest,
      k - length (decimal_digits num))"
  using assms
proof (induction k arbitrary: dest num)
  case 0
  with length_decimal_digits_pos [of num] show ?case by simp
next
  case (Suc i)
  have d: "digit_char (num mod 10) = (48 + of_nat (num mod 10))"
    by (rule digit_char_decimal) simp
  from Suc.prems(2) have il: "i < length dest" by simp
  show ?case
  proof (cases "num < 10")
    case True
    then have dd: "decimal_digits num = [48 + of_nat num]"
      by (subst decimal_digits.simps) simp
    from True have z: "num div 10 = 0" "num mod 10 = num" by simp_all
    from True have d': "digit_char num = 48 + of_nat num" by (rule digit_char_decimal)
    show ?thesis
      using il by (simp add: z dd d' upd_conv_take_nth_drop)
  next
    case False
    then have dd: "decimal_digits num = decimal_digits (num div 10) @ [(48 + of_nat (num mod 10))]"
      by (subst decimal_digits.simps) simp
    from False have nz: "num div 10 \<noteq> 0" by simp
    let ?L = "length (decimal_digits (num div 10))"
    from Suc.prems(1) dd have l: "?L \<le> i" by simp
    let ?dest = "dest[i := (48 + of_nat (num mod 10))]"
    have "uint2str_loop ?dest i (num div 10) 10 =
        (take (i - ?L) ?dest @ decimal_digits (num div 10) @ drop i ?dest, i - ?L)"
      using l il by (intro Suc.IH) simp_all
    moreover have "take (i - ?L) ?dest = take (i - ?L) dest" by simp
    moreover have "drop i ?dest = (48 + of_nat (num mod 10)) # drop (Suc i) dest"
      using il by (simp add: upd_conv_take_nth_drop)
    ultimately show ?thesis
      using nz by (simp add: d dd)
  qed
qed

lemma uint2str_decimal:
  assumes "length (decimal_digits num) \<le> 13"
  shows "uint2str (replicate 14 0) 14 num 10 =
     (replicate (13 - length (decimal_digits num)) 0 @ decimal_digits num @ [0],
      13 - length (decimal_digits num))"
proof -
  have r: "(replicate 14 (0 :: byte))[14 - 1 := 0] = replicate 14 0"
    by (simp add: list_eq_iff_nth_eq nth_list_update)
  have d: "drop 13 (replicate 14 (0 :: byte)) = [0]" by simp
  have t: "take (13 - n) (replicate 14 (0 :: byte)) = replicate (13 - n) 0" for n
    by simp
  show ?thesis
    unfolding uint2str_def r
    using uint2str_loop_decimal [of num 13 "replicate 14 0", OF assms]
    by (simp add: d t)
qed

subsection \<open>The buffers of the generated names\<close>




lemma tagged_name1:
  "(replicate (l + 17) (0 :: byte))[0 := 35, 1 := 35, 2 + l := 35]
     = 35 # 35 # replicate l 0 @ 35 # replicate 14 0"
proof -
  have "l + 17 = Suc (Suc (l + Suc 14))" by simp
  then have r: "replicate (l + 17) (0 :: byte) = 0 # 0 # replicate l 0 @ 0 # replicate 14 0"
    by (simp only: replicate_Suc replicate_add)
  have u: "(replicate l (0 :: byte) @ 0 # replicate 14 0)[l := 35]
      = replicate l 0 @ 35 # replicate 14 0"
    using list_update_length [of "replicate l (0 :: byte)" 0 "replicate 14 0" 35] by simp
  have i: "2 + l = Suc (Suc l)" "(1 :: nat) = Suc 0" by simp_all
  show ?thesis unfolding r i by (simp add: u)
qed

lemma memcpy_at_end:
  assumes "length pre = off" "length mid = n" "n \<le> length src"
  shows "memcpy (pre @ mid @ post) off src n = Some (pre @ take n src @ post)"
  using assms by (simp add: memcpy_def)

lemma tagged_buffer:
  fixes D :: "byte list"
  assumes "length D \<le> 13" "l \<le> length str"
  shows "\<exists>name2.
     memcpy ((replicate (l + 17) 0)[0 := 35, 1 := 35, 2 + l := 35]) 2 str l = Some name2 \<and>
     memcpy name2 (3 + l) (drop (13 - length D) (replicate (13 - length D) 0 @ D @ [0]))
         (14 - (13 - length D))
       = Some ([35, 35] @ take l str @ [35] @ D @ [0] @ replicate (13 - length D) 0)"
proof -
  let ?tag = "take l str"
  let ?R = "13 - length D"
  let ?name2 = "[35, 35] @ ?tag @ [35] @ replicate 14 (0 :: byte)"
  have lt: "length ?tag = l" using assms(2) by simp
  have "memcpy ([35, 35] @ replicate l 0 @ (35 # replicate 14 0)) 2 str l
      = Some ([35, 35] @ take l str @ (35 # replicate 14 0))"
    using assms(2) by (intro memcpy_at_end) simp_all
  then have m1: "memcpy ((replicate (l + 17) 0)[0 := 35, 1 := 35, 2 + l := 35]) 2 str l
      = Some ?name2"
    unfolding tagged_name1 by simp
  have n: "14 - ?R = Suc (length D)" using assms(1) by simp
  have "14 = Suc (length D) + ?R" using assms(1) by simp
  then have "replicate 14 (0 :: byte) = replicate (Suc (length D)) 0 @ replicate ?R 0"
    by (simp only: replicate_add)
  then have e: "?name2 = ([35, 35] @ ?tag @ [35]) @ replicate (Suc (length D)) 0 @ replicate ?R 0"
    by (simp only: append_assoc)
  have dr: "drop ?R (replicate ?R (0 :: byte) @ D @ [0]) = D @ [0]" by simp
  have "memcpy (([35, 35] @ ?tag @ [35]) @ replicate (Suc (length D)) 0 @ replicate ?R 0)
      (3 + l) (D @ [0]) (Suc (length D))
      = Some (([35, 35] @ ?tag @ [35]) @ take (Suc (length D)) (D @ [0]) @ replicate ?R 0)"
    using lt by (intro memcpy_at_end) simp_all
  then have m2: "memcpy ?name2 (3 + l) (drop ?R (replicate ?R 0 @ D @ [0])) (14 - ?R)
       = Some ([35, 35] @ ?tag @ [35] @ D @ [0] @ replicate ?R 0)"
    unfolding n dr e [symmetric] by simp
  from m1 m2 show ?thesis by blast
qed

lemma unat_alloc_len:
  assumes "len \<le> MAX_SYM_LEN"
  shows "unat (14 + len + 3) = unat len + 17"
proof -
  from assms have le: "unat len \<le> 9223372036854775774" by (simp add: le_MAX_SYM_LEN)
  have e: "14 + len + 3 = len + 17" by simp
  have "unat (len + 17) = unat len + unat (17 :: size_t)"
    using le by (subst unat_add_lem [THEN iffD1]) simp_all
  then show ?thesis unfolding e by simp
qed

lemma tagged_len:
  assumes "L \<le> 13"
  shows "(14 :: size_t) + len + 3 - of_nat (13 - L) - 1 = len + 3 + of_nat L"
proof -
  have "(of_nat (13 - L) :: size_t) = 13 - of_nat L"
    using assms by simp
  then show ?thesis by simp
qed

lemma jl_tagged_gensym_eq:
  assumes nul: "memchr str 0 (unat len) = Some False"
    and ns: "len \<noteq> - 1"
    and l1: "len \<le> MAX_SYM_LEN" and l2: "14 + len + 3 \<le> MAX_SYM_LEN"
  shows "jl_tagged_gensym H st str len =
     jl_symbol_raw H (st\<lparr>gs_ctr := gs_ctr st + 1\<rparr>)
       ([35, 35] @ take (unat len) str @ [35] @ decimal_digits (unat (gs_ctr st)) @ [0]
          @ replicate (13 - length (decimal_digits (unat (gs_ctr st)))) 0)
       (len + 3 + of_nat (length (decimal_digits (unat (gs_ctr st)))))"
proof -
  let ?D = "decimal_digits (unat (gs_ctr st))"
  have L: "length ?D \<le> 13" using length_decimal_digits_u32 [of "gs_ctr st"] by simp
  from nul have inb: "unat len \<le> length str" by (simp add: memchr_False_iff)
  from tagged_buffer [OF L inb] obtain name2 where
    m1: "memcpy ((replicate (unat len + 17) 0)[0 := 35, 1 := 35, 2 + unat len := 35]) 2 str
          (unat len) = Some name2"
    and m2: "memcpy name2 (3 + unat len)
          (drop (13 - length ?D) (replicate (13 - length ?D) 0 @ ?D @ [0]))
          (14 - (13 - length ?D))
       = Some ([35, 35] @ take (unat len) str @ [35] @ ?D @ [0] @ replicate (13 - length ?D) 0)"
    by blast
  have c: "\<not> (MAX_SYM_LEN < len \<or> MAX_SYM_LEN < 14 + len + 3)"
    unfolding not_less de_Morgan_disj using l1 l2 by (rule conjI)
  show ?thesis
    unfolding jl_tagged_gensym_def Let_def
    by (simp only: ns if_False nul option.map option.case prod.case c
        unat_alloc_len [OF l1] m1 uint2str_decimal [OF L] m2 tagged_len [OF L])
qed

subsection \<open>The error branches\<close>

lemma jl_symbol_raw_not_nul:
  assumes "jl_symbol_raw H st str len = Some (r, st')"
  shows "r \<noteq> Inl EmbeddedNul"
proof (cases "MAX_SYM_LEN < len")
  case True
  with assms show ?thesis by (auto simp: jl_symbol_raw_def)
next
  case False
  with assms show ?thesis
    unfolding jl_symbol_raw_def
    by (simp split: option.splits bool.splits prod.splits if_splits) auto
qed

lemma jl_tagged_gensym_nul:
  assumes "len \<noteq> - 1" "memchr str 0 (unat len) = Some True"
  shows "jl_tagged_gensym H st str len = Some (Inl EmbeddedNul, st)"
  using assms by (simp add: jl_tagged_gensym_def)

lemma jl_tagged_gensym_long:
  assumes "len \<noteq> - 1" "memchr str 0 (unat len) = Some False"
    "MAX_SYM_LEN < len \<or> MAX_SYM_LEN < 14 + len + 3"
  shows "jl_tagged_gensym H st str len = Some (Inl NameTooLong, st)"
  unfolding jl_tagged_gensym_def Let_def
  by (simp only: assms if_False if_True option.map option.case prod.case)

lemma jl_tagged_gensym_sentinel:
  assumes "strlen str = Some l" "l < 2 ^ 64"
  shows "jl_tagged_gensym H st str (- 1) = jl_tagged_gensym H st str (of_nat l)"
proof (cases "(of_nat l :: size_t) = - 1")
  case True
  then show ?thesis by simp
next
  case False
  from assms(2) have u: "unat (of_nat l :: size_t) = l"
    by (simp add: unat_of_nat)
  from strlen_Some [OF assms(1)] have "memchr str 0 l = Some False"
    by (simp add: memchr_False_iff)
  with False u assms(1) show ?thesis
    unfolding jl_tagged_gensym_def by simp
qed

lemma jl_tagged_gensym_sentinel_not_nul:
  assumes "jl_tagged_gensym H st str (- 1) = Some (r, st')"
  shows "r \<noteq> Inl EmbeddedNul"
proof (cases "strlen str")
  case None
  with assms show ?thesis by (simp add: jl_tagged_gensym_def)
next
  case (Some l)
  show ?thesis
  proof (cases "MAX_SYM_LEN < (of_nat l :: size_t) \<or> MAX_SYM_LEN < 14 + (of_nat l :: size_t) + 3")
    case True
    have "jl_tagged_gensym H st str (- 1) = Some (Inl NameTooLong, st)"
      unfolding jl_tagged_gensym_def Let_def
      by (simp only: Some True if_False if_True option.map option.case prod.case simp_thms)
    with assms show ?thesis by auto
  next
    case False
    have "\<exists>st1 name n. jl_tagged_gensym H st str (- 1) = None \<or>
        jl_tagged_gensym H st str (- 1) = jl_symbol_raw H st1 name n"
      unfolding jl_tagged_gensym_def Let_def
      by (simp only: Some False if_False if_True option.map option.case prod.case simp_thms
          split: option.splits prod.splits) blast
    with assms jl_symbol_raw_not_nul show ?thesis by (metis option.distinct(1))
  qed
qed

lemma jl_tagged_gensym_nul_iff:
  assumes "len \<noteq> - 1" "jl_tagged_gensym H st str len = Some (r, st')"
  shows "r = Inl EmbeddedNul \<longleftrightarrow> memchr str 0 (unat len) = Some True"
proof (cases "memchr str 0 (unat len)")
  case None
  with assms show ?thesis by (simp add: jl_tagged_gensym_def)
next
  case (Some found)
  show ?thesis
  proof (cases found)
    case True
    with Some assms jl_tagged_gensym_nul [OF assms(1), of str H st] show ?thesis by simp
  next
    case False
    with Some have nul: "memchr str 0 (unat len) = Some False" by simp
    show ?thesis
    proof (cases "MAX_SYM_LEN < len \<or> MAX_SYM_LEN < 14 + len + 3")
      case True
      from jl_tagged_gensym_long [OF assms(1) nul True, of H st] assms(2) nul
      show ?thesis by simp
    next
      case F: False
      then have "len \<le> MAX_SYM_LEN" "14 + len + 3 \<le> MAX_SYM_LEN"
        by (simp_all add: not_less)
      from jl_tagged_gensym_eq [OF nul assms(1) this, of H st] assms(2)
      have "jl_symbol_raw H (st\<lparr>gs_ctr := gs_ctr st + 1\<rparr>)
          ([35, 35] @ take (unat len) str @ [35] @ decimal_digits (unat (gs_ctr st)) @ [0]
             @ replicate (13 - length (decimal_digits (unat (gs_ctr st)))) 0)
          (len + 3 + of_nat (length (decimal_digits (unat (gs_ctr st))))) = Some (r, st')"
        by simp
      from jl_symbol_raw_not_nul [OF this] nul show ?thesis by simp
    qed
  qed
qed

lemma jl_symbol_cstring:
  assumes "0 \<notin> set bs"
  shows "jl_symbol H st (bs @ 0 # rest) = jl_symbol_raw H st (bs @ 0 # rest) (of_nat (length bs))"
  using assms by (simp add: jl_symbol_def strlen_append)

lemma jl_symbol_lookup_cstring:
  assumes "0 \<notin> set bs"
  shows "jl_symbol_lookup H st (bs @ 0 # rest)
      = map_option fst (symtab_lookup H st Root (bs @ 0 # rest) (of_nat (length bs)))"
  using assms by (simp add: jl_symbol_lookup_def strlen_append)

lemma cstring_valid:
  assumes "0 \<notin> set bs" "length bs < 2 ^ 64"
  shows "unat (of_nat (length bs) :: size_t) = length bs"
    and "memchr (bs @ 0 # rest) 0 (unat (of_nat (length bs) :: size_t)) = Some False"
    and "take (unat (of_nat (length bs) :: size_t)) (bs @ 0 # rest) = bs"
proof -
  show u: "unat (of_nat (length bs) :: size_t) = length bs"
    using assms(2) by (simp add: unat_of_nat)
  show "memchr (bs @ 0 # rest) 0 (unat (of_nat (length bs) :: size_t)) = Some False"
    unfolding u using assms(1) by (simp add: memchr_False_iff)
  show "take (unat (of_nat (length bs) :: size_t)) (bs @ 0 # rest) = bs"
    unfolding u by simp
qed


subsection \<open>Lookups on a well-formed table\<close>


lemma symtab_lookup_total:
  assumes "symtab_inv H st" "memchr str 0 (unat len) = Some False"
  shows "\<exists>r sl. symtab_lookup H st Root str len = Some (r, sl) \<and>
           (\<forall>a. r = Some a \<longrightarrow>
              (\<exists>n. mem st a = Some n \<and> sym_name n = take (unat len) str @ [0]))"
proof -
  from assms(1) obtain t where ht: "htree (mem st) (symtab st) t"
    and okf: "\<forall>v \<in> set_tree t. node_ok H v \<and> finds_itself t v"
    unfolding symtab_inv_def by blast
  from okf have ok: "\<forall>v \<in> set_tree t. node_ok H v" by blast
  from assms(2) have inb: "unat len \<le> length str" by (simp add: memchr_False_iff)
  from hash_symbol_total [OF inb] obtain h where h: "hash_symbol H str len = Some h"
    by blast
  from tfind_total [OF ok assms(2)] obtain r sl where tf: "tfind h str len Root t = Some (r, sl)"
    by blast
  have "\<exists>n. mem st a = Some n \<and> sym_name n = take (unat len) str @ [0]" if "r = Some a" for a
  proof -
    from tfind_hit [OF ok assms(2)] tf that
    have "(a, h, take (unat len) str @ [0]) \<in> set_tree t" by simp
    from htree_mem [OF ht this] show ?thesis by blast
  qed
  with tf symtab_lookup_tfind [OF ht h] show ?thesis by simp
qed

lemma symtab_lookup_fresh:
  assumes "symtab_inv H st" "memchr str 0 (unat len) = Some False"
    "take (unat len) str \<notin> interned st"
  shows "\<exists>sl. symtab_lookup H st Root str len = Some (None, sl)"
proof -
  from symtab_lookup_total [OF assms(1,2)] obtain r sl where
    lk: "symtab_lookup H st Root str len = Some (r, sl)"
    and nm: "\<forall>a. r = Some a \<longrightarrow>
        (\<exists>n. mem st a = Some n \<and> sym_name n = take (unat len) str @ [0])"
    by blast
  have "r = None"
  proof (cases r)
    case None
    then show ?thesis .
  next
    case (Some a)
    with nm obtain n where "mem st a = Some n" "sym_name n = take (unat len) str @ [0]"
      by blast
    then have "take (unat len) str \<in> interned st"
      by (force simp: interned_def ran_def name_of_def)
    with assms(3) show ?thesis by simp
  qed
  with lk show ?thesis by blast
qed

lemma jl_symbol_name_eq:
  assumes "mem st a = Some n" "sym_name n = bs @ [0]" "0 \<notin> set bs"
  shows "jl_symbol_name st a = Some bs"
proof -
  have "takeWhile (\<lambda>c. c \<noteq> 0) (bs @ [0]) = bs"
    using assms(3) by (induction bs) auto
  with assms(1,2) show ?thesis by (simp add: jl_symbol_name_def)
qed

subsection \<open>Generated names are interned\<close>








subsection \<open>Concrete values\<close>



lemma hash_symbol_spread: "hash_symbol spread_hashing [c] 1 = Some (push_bit 56 (ucast c))"
  by (simp add: hash_symbol_def spread_hashing_def bytes_at_def xor.assoc)

section \<open>The claims\<close>



text \<open>
  C2. The direction at a node is the sign of the wrapped difference of the two hashes
  read as \<^verbatim>\<open>intptr_t\<close>, which is not a comparison of the hashes as numbers. With hashes
  spread over the 64-bit range, take the table that holds the one name \<open>a\<close> (hash
  \<open>0x61 << 56\<close>). The search for the name with hash \<open>0xE2 << 56\<close>, the greater hash as
  an unsigned number, ends in the left slot of that node, and interning the name makes
  it the left child. The search for the name with hash \<open>0x9F << 56\<close>, the smaller hash
  as a signed number, ends in the right slot, and interning the name makes it the right
  child.
\<close>

theorem symtab_lookup_direction_not_numeric:
  "jl_symbol_raw spread_hashing (symtab_init 8) [97] 1 =
     Some (Inr 8,
       \<lparr>mem = (\<lambda>a. None)(8 \<mapsto> \<lparr>sym_left = None, sym_right = None,
          sym_hash = push_bit 56 97, sym_name = [97, 0]\<rparr>),
        perm_next = 40, symtab = Some 8, gs_ctr = 0\<rparr>) \<and>
   hash_symbol spread_hashing [226] 1 = Some (push_bit 56 226) \<and>
   (push_bit 56 97 :: uintptr_t) < push_bit 56 226 \<and>
   symtab_lookup spread_hashing
     \<lparr>mem = (\<lambda>a. None)(8 \<mapsto> \<lparr>sym_left = None, sym_right = None,
        sym_hash = push_bit 56 97, sym_name = [97, 0]\<rparr>),
      perm_next = 40, symtab = Some 8, gs_ctr = 0\<rparr>
     Root [226] 1 = Some (None, LeftOf 8) \<and>
   (\<exists>st'. jl_symbol_raw spread_hashing
       \<lparr>mem = (\<lambda>a. None)(8 \<mapsto> \<lparr>sym_left = None, sym_right = None,
          sym_hash = push_bit 56 97, sym_name = [97, 0]\<rparr>),
        perm_next = 40, symtab = Some 8, gs_ctr = 0\<rparr>
       [226] 1 = Some (Inr 40, st') \<and>
      map_option sym_left (mem st' 8) = Some (Some 40) \<and>
      map_option sym_hash (mem st' 40) = Some (push_bit 56 226)) \<and>
   hash_symbol spread_hashing [159] 1 = Some (push_bit 56 159) \<and>
   sint (push_bit 56 159 :: uintptr_t) < sint (push_bit 56 97 :: uintptr_t) \<and>
   symtab_lookup spread_hashing
     \<lparr>mem = (\<lambda>a. None)(8 \<mapsto> \<lparr>sym_left = None, sym_right = None,
        sym_hash = push_bit 56 97, sym_name = [97, 0]\<rparr>),
      perm_next = 40, symtab = Some 8, gs_ctr = 0\<rparr>
     Root [159] 1 = Some (None, RightOf 8) \<and>
   (\<exists>st'. jl_symbol_raw spread_hashing
       \<lparr>mem = (\<lambda>a. None)(8 \<mapsto> \<lparr>sym_left = None, sym_right = None,
          sym_hash = push_bit 56 97, sym_name = [97, 0]\<rparr>),
        perm_next = 40, symtab = Some 8, gs_ctr = 0\<rparr>
       [159] 1 = Some (Inr 40, st') \<and>
      map_option sym_right (mem st' 8) = Some (Some 40) \<and>
      map_option sym_hash (mem st' 40) = Some (push_bit 56 159))"
proof -
  let ?st = "\<lparr>mem = (\<lambda>a. None)(8 \<mapsto> \<lparr>sym_left = None, sym_right = None,
          sym_hash = push_bit 56 97, sym_name = [97, 0]\<rparr>),
        perm_next = 40, symtab = Some 8, gs_ctr = 0\<rparr>"
  have h: "hash_symbol spread_hashing [97] 1 = Some (push_bit 56 97)"
    "hash_symbol spread_hashing [226] 1 = Some (push_bit 56 226)"
    "hash_symbol spread_hashing [159] 1 = Some (push_bit 56 159)"
    using hash_symbol_spread [of 97] hash_symbol_spread [of 226] hash_symbol_spread [of 159]
    by simp_all
  note run = jl_symbol_raw_def symtab_lookup_def lookup_loop.simps h load_def store_def
    mk_symbol_def jl_gc_permobj_def memchr_iff MAX_SYM_LEN_val node_cmp_def
    symbol_nbytes_def sizeof_jl_sym_t_def bytes_at_def
  have 1: "jl_symbol_raw spread_hashing (symtab_init 8) [97] 1 = Some (Inr 8, ?st)"
    by (simp add: run symtab_init_def)
  have 2: "symtab_lookup spread_hashing ?st Root [226] 1 = Some (None, LeftOf 8)"
    by (simp add: symtab_lookup_def lookup_loop.simps h load_def node_cmp_def)
  have 3: "symtab_lookup spread_hashing ?st Root [159] 1 = Some (None, RightOf 8)"
    by (simp add: symtab_lookup_def lookup_loop.simps h load_def node_cmp_def)
  have 4: "(push_bit 56 97 :: uintptr_t) < push_bit 56 226"
    "sint (push_bit 56 159 :: uintptr_t) < sint (push_bit 56 97 :: uintptr_t)"
    by simp_all
  have 5: "\<exists>st'. jl_symbol_raw spread_hashing ?st [226] 1 = Some (Inr 40, st') \<and>
      map_option sym_left (mem st' 8) = Some (Some 40) \<and>
      map_option sym_hash (mem st' 40) = Some (push_bit 56 226)"
    by (simp add: run)
  have 6: "\<exists>st'. jl_symbol_raw spread_hashing ?st [159] 1 = Some (Inr 40, st') \<and>
      map_option sym_right (mem st' 8) = Some (Some 40) \<and>
      map_option sym_hash (mem st' 40) = Some (push_bit 56 159)"
    by (simp add: run)
  from 1 2 3 4 5 6 h(2,3) show ?thesis by (intro conjI)
qed

text \<open>
  C3. \<open>interned st\<close> is the set of the names of the symbols allocated so far: empty in
  the initial table, and a call of \<open>jl_symbol_raw\<close> (through which every interning
  function goes) adds at most the name it is given. In every reachable state, for a
  NUL-terminated string \<open>bs\<close>: \<open>jl_symbol_lookup\<close> returns \<open>NULL\<close> while \<open>bs\<close> is not
  interned, and once \<open>jl_symbol\<close> has returned the handle \<open>h\<close> for \<open>bs\<close>,
  \<open>jl_symbol_lookup\<close> returns \<open>h\<close>. \<open>jl_symbol_lookup\<close> only reads the state: it
  returns no new state.
\<close>

theorem lookup_before_and_after_intern:
  assumes "reachable H st" "0 \<notin> set bs" "length bs < 2 ^ 64"
  shows "interned (symtab_init base) = {} \<and>
     jl_symbol_lookup H (symtab_init base) (bs @ 0 # rest) = Some None \<and>
     (bs \<notin> interned st \<longrightarrow> jl_symbol_lookup H st (bs @ 0 # rest) = Some None) \<and>
     (\<forall>str2 len2 r st2. jl_symbol_raw H st str2 len2 = Some (r, st2) \<longrightarrow>
        interned st2 \<subseteq> insert (take (unat len2) str2) (interned st)) \<and>
     (\<forall>h st'. jl_symbol H st (bs @ 0 # rest) = Some (Inr h, st') \<longrightarrow>
        jl_symbol_lookup H st' (bs @ 0 # rest) = Some (Some h) \<and> bs \<in> interned st') \<and>
     (length bs \<le> unat MAX_SYM_LEN \<longrightarrow>
        (\<exists>h st'. jl_symbol H st (bs @ 0 # rest) = Some (Inr h, st')))"
proof -
  let ?str = "bs @ 0 # rest"
  let ?len = "of_nat (length bs) :: size_t"
  note cs = cstring_valid(1) [OF assms(2,3)] cstring_valid(2) [OF assms(2,3), of rest]
    cstring_valid(3) [OF assms(2,3), of rest]
  from assms(1) have inv: "symtab_inv H st" by (rule reachable_inv)
  have i0: "interned (symtab_init base) = {}"
    by (simp add: interned_def symtab_init_def ran_def)
  have fresh: "jl_symbol_lookup H st' ?str = Some None"
    if "symtab_inv H st'" "bs \<notin> interned st'" for st'
  proof -
    from symtab_lookup_fresh [OF that(1) cs(2)] that(2) cs(3)
    obtain sl where "symtab_lookup H st' Root ?str ?len = Some (None, sl)" by auto
    then show ?thesis by (simp add: jl_symbol_lookup_cstring [OF assms(2)])
  qed
  have l0: "jl_symbol_lookup H (symtab_init base) ?str = Some None"
    by (rule fresh [OF symtab_inv_init]) (simp add: i0)
  have step: "interned st2 \<subseteq> insert (take (unat len2) str2) (interned st)"
    if "jl_symbol_raw H st str2 len2 = Some (r, st2)" for str2 len2 r st2
  proof -
    from jl_symbol_raw_cases [OF that]
    consider "st2 = st" | "len2 \<le> MAX_SYM_LEN" "memchr str2 0 (unat len2) = Some False"
      by blast
    then show ?thesis
    proof cases
      case 1
      then show ?thesis by auto
    next
      case 2
      from jl_symbol_raw_inv [OF inv 2] that show ?thesis by auto
    qed
  qed
  have after: "jl_symbol_lookup H st' ?str = Some (Some h) \<and> bs \<in> interned st'"
    if "jl_symbol H st ?str = Some (Inr h, st')" for h st'
  proof -
    from that have raw: "jl_symbol_raw H st ?str ?len = Some (Inr h, st')"
      by (simp add: jl_symbol_cstring [OF assms(2)])
    from jl_symbol_raw_cases [OF raw]
    have le: "?len \<le> MAX_SYM_LEN" by auto
    from jl_symbol_raw_inv [OF inv le cs(2)] raw cs(3)
    obtain sl where "symtab_lookup H st' Root ?str ?len = Some (Some h, sl)"
      "interned st' = insert bs (interned st)" by auto
    then show ?thesis by (simp add: jl_symbol_lookup_cstring [OF assms(2)])
  qed
  have ex: "\<exists>h st'. jl_symbol H st ?str = Some (Inr h, st')"
    if "length bs \<le> unat MAX_SYM_LEN"
  proof -
    from that cs(1) have le: "?len \<le> MAX_SYM_LEN" by (simp add: word_le_nat_alt)
    from jl_symbol_raw_inv [OF inv le cs(2)] show ?thesis
      unfolding jl_symbol_cstring [OF assms(2)] by blast
  qed
  from i0 l0 fresh [OF inv] step after ex show ?thesis by blast
qed

theorem lookup_before_and_after_intern_witness:
  "reachable demo_hashing (symtab_init 8) \<and> 0 \<notin> set [104, 105 :: byte] \<and>
   length [104, 105 :: byte] < 2 ^ 64 \<and>
   [104, 105] \<notin> interned (symtab_init 8) \<and>
   jl_symbol_lookup demo_hashing (symtab_init 8) [104, 105, 0] = Some None \<and>
   (\<exists>h st'. jl_symbol demo_hashing (symtab_init 8) [104, 105, 0] = Some (Inr h, st') \<and>
      jl_symbol_lookup demo_hashing st' [104, 105, 0] = Some (Some h))"
proof -
  have r: "reachable demo_hashing (symtab_init 8)" by (rule reach_init)
  have z: "0 \<notin> set [104, 105 :: byte]" by simp
  have l: "length [104, 105 :: byte] < 2 ^ 64" by simp
  have m: "length [104, 105 :: byte] \<le> unat MAX_SYM_LEN" by (simp add: unat_MAX_SYM_LEN)
  have i: "[104, 105] \<notin> interned (symtab_init 8)"
    by (simp add: interned_def symtab_init_def ran_def)
  from lookup_before_and_after_intern [OF r z l, of 8 "[]"] m i r z l
  show ?thesis by (simp only: append.simps) blast
qed







text \<open>
  C7. In every reachable state \<open>_jl_symbol\<close> (here \<open>jl_symbol_raw\<close>) succeeds on a name
  of exactly \<open>MAX_SYM_LEN\<close> bytes: it returns a handle to a symbol of the table whose
  name is those \<open>MAX_SYM_LEN\<close> bytes followed by the terminator, which a search and a
  second call then find, and either the name was interned before and the state is as
  it was, or the symbol is the block of \<open>symbol_nbytes MAX_SYM_LEN\<close> bytes just taken
  from the allocator. With any length above \<open>MAX_SYM_LEN\<close>, so with \<open>MAX_SYM_LEN + 1\<close>,
  it raises "Symbol name too long" whatever the buffer holds and leaves the state as it
  was: nothing was allocated and no node was stored. (The mutex has no counterpart in
  the model.)
\<close>

theorem intern_length_boundary:
  assumes "reachable H st" "memchr str 0 (unat MAX_SYM_LEN) = Some False"
  shows "(\<exists>h st' n sl.
        jl_symbol_raw H st str MAX_SYM_LEN = Some (Inr h, st') \<and>
        reachable H st' \<and>
        mem st' h = Some n \<and>
        sym_name n = take (unat MAX_SYM_LEN) str @ [0] \<and>
        length (sym_name n) = unat MAX_SYM_LEN + 1 \<and>
        jl_symbol_name st' h = Some (take (unat MAX_SYM_LEN) str) \<and>
        take (unat MAX_SYM_LEN) str \<in> interned st' \<and>
        symtab_lookup H st' Root str MAX_SYM_LEN = Some (Some h, sl) \<and>
        jl_symbol_raw H st' str MAX_SYM_LEN = Some (Inr h, st') \<and>
        (take (unat MAX_SYM_LEN) str \<in> interned st \<and> st' = st \<or>
         take (unat MAX_SYM_LEN) str \<notin> interned st \<and> mem st h = None \<and>
         h = perm_next st \<and>
         perm_next st' = perm_next st + unat (symbol_nbytes MAX_SYM_LEN))) \<and>
     jl_symbol_raw H st str' (MAX_SYM_LEN + 1) = Some (Inl NameTooLong, st) \<and>
     (\<forall>len. MAX_SYM_LEN < len \<longrightarrow> jl_symbol_raw H st str' len = Some (Inl NameTooLong, st))"
proof -
  let ?nm = "take (unat MAX_SYM_LEN) str"
  from assms(1) have inv: "symtab_inv H st" by (rule reachable_inv)
  from assms(2) have inb: "unat MAX_SYM_LEN \<le> length str" and nz: "0 \<notin> set ?nm"
    by (simp_all add: memchr_False_iff)
  from jl_symbol_raw_inv [OF inv order_refl assms(2)] obtain h st' sl n where
    raw: "jl_symbol_raw H st str MAX_SYM_LEN = Some (Inr h, st')"
    and lk: "symtab_lookup H st' Root str MAX_SYM_LEN = Some (Some h, sl)"
    and n: "mem st' h = Some n" "sym_name n = ?nm @ [0]"
    and int: "interned st' = insert ?nm (interned st)"
    and cases: "symtab_lookup H st Root str MAX_SYM_LEN = Some (Some h, sl) \<and> st' = st \<or>
            (\<exists>sl0. symtab_lookup H st Root str MAX_SYM_LEN = Some (None, sl0)) \<and>
            mem st h = None \<and> h = perm_next st \<and>
            perm_next st' = perm_next st + unat (symbol_nbytes MAX_SYM_LEN)"
    by blast
  have r': "reachable H st'" using assms(1) raw by (rule reach_symbol_raw)
  have len: "length (sym_name n) = unat MAX_SYM_LEN + 1" using n(2) inb by simp
  have nm: "jl_symbol_name st' h = Some ?nm" by (rule jl_symbol_name_eq [OF n nz])
  have in': "?nm \<in> interned st'" using int by simp
  have again: "jl_symbol_raw H st' str MAX_SYM_LEN = Some (Inr h, st')"
    by (rule jl_symbol_raw_hit [OF order_refl assms(2) lk])
  have how: "?nm \<in> interned st \<and> st' = st \<or>
         ?nm \<notin> interned st \<and> mem st h = None \<and> h = perm_next st \<and>
         perm_next st' = perm_next st + unat (symbol_nbytes MAX_SYM_LEN)"
  proof (cases "?nm \<in> interned st")
    case True
    have "\<not> (\<exists>sl0. symtab_lookup H st Root str MAX_SYM_LEN = Some (None, sl0))"
    proof
      assume "\<exists>sl0. symtab_lookup H st Root str MAX_SYM_LEN = Some (None, sl0)"
      then obtain sl0 where miss: "symtab_lookup H st Root str MAX_SYM_LEN = Some (None, sl0)"
        by blast
      from True obtain a m where m: "mem st a = Some m" "name_of (sym_name m) = ?nm"
        by (auto simp: interned_def ran_def)
      from inv obtain t where ht: "htree (mem st) (symtab st) t"
        and okf: "\<forall>v \<in> set_tree t. node_ok H v \<and> finds_itself t v"
        and dom: "\<forall>a. mem st a \<noteq> None \<longleftrightarrow> a \<in> addrs t"
        unfolding symtab_inv_def by blast
      from m(1) dom have "a \<in> addrs t" by (metis option.distinct(1))
      then obtain ah anm where va: "(a, ah, anm) \<in> set_tree t" by (auto simp: addrs_def)
      from htree_mem [OF ht va] m(1) have anm: "sym_name m = anm" by auto
      from okf va have ok: "node_ok H (a, ah, anm)" and fi: "finds_itself t (a, ah, anm)"
        by blast+
      from anm m(2) have nmeq: "name_of anm = ?nm" by simp
      have li: "(of_nat (length ?nm) :: size_t) = MAX_SYM_LEN" using inb by simp
      from ok have "hash_symbol H (name_of anm) (of_nat (length (name_of anm))) = Some ah"
        by (simp add: node_ok_def)
      then have "hash_symbol H ?nm MAX_SYM_LEN = Some ah"
        unfolding nmeq li .
      then have hs: "hash_symbol H str MAX_SYM_LEN = Some ah"
        unfolding hash_symbol_take [OF inb] .
      from fi have "map_option fst (tfind ah (name_of anm) (of_nat (length (name_of anm)))
          Root t) = Some (Some a)"
        by (simp add: finds_itself_def)
      then have "map_option fst (tfind ah ?nm MAX_SYM_LEN Root t) = Some (Some a)"
        unfolding nmeq li .
      then have "map_option fst (tfind ah str MAX_SYM_LEN Root t) = Some (Some a)"
        unfolding tfind_take [OF inb] .
      then obtain s2 where "tfind ah str MAX_SYM_LEN Root t = Some (Some a, s2)"
        by auto
      with symtab_lookup_tfind [OF ht hs] miss show False by simp
    qed
    with cases True show ?thesis by blast
  next
    case False
    have "st' \<noteq> st" using in' False by auto
    with cases False show ?thesis by blast
  qed
  have "jl_symbol_raw H st str' len = Some (Inl NameTooLong, st)"
    if "MAX_SYM_LEN < len" for len
    using that by (simp add: jl_symbol_raw_def)
  moreover have "MAX_SYM_LEN < MAX_SYM_LEN + 1"
    by (simp add: MAX_SYM_LEN_val)
  ultimately show ?thesis
    using raw r' n len nm in' lk again how by blast
qed

theorem intern_length_boundary_witness:
  "reachable demo_hashing (symtab_init 8) \<and>
   memchr (replicate (unat MAX_SYM_LEN) 97) 0 (unat MAX_SYM_LEN) = Some False \<and>
   (\<exists>st' n.
      jl_symbol_raw demo_hashing (symtab_init 8) (replicate (unat MAX_SYM_LEN) 97)
        MAX_SYM_LEN = Some (Inr 8, st') \<and>
      mem st' 8 = Some n \<and>
      sym_name n = replicate (unat MAX_SYM_LEN) 97 @ [0] \<and>
      jl_symbol_name st' 8 = Some (replicate (unat MAX_SYM_LEN) 97) \<and>
      perm_next st' = 8 + unat (symbol_nbytes MAX_SYM_LEN) \<and>
      jl_symbol_raw demo_hashing st' (replicate (unat MAX_SYM_LEN) 97) MAX_SYM_LEN
        = Some (Inr 8, st')) \<and>
   jl_symbol_raw demo_hashing (symtab_init 8) (replicate (unat MAX_SYM_LEN) 97)
      (MAX_SYM_LEN + 1) = Some (Inl NameTooLong, symtab_init 8)"
proof -
  let ?str = "replicate (unat MAX_SYM_LEN) (97 :: byte)"
  have r: "reachable demo_hashing (symtab_init 8)" by (rule reach_init)
  have m: "memchr ?str 0 (unat MAX_SYM_LEN) = Some False"
    unfolding memchr_False_iff by (simp add: set_replicate_conv_if)
  have t: "take (unat MAX_SYM_LEN) ?str = ?str" by simp
  have i: "?str \<notin> interned (symtab_init 8)"
    by (simp add: interned_def symtab_init_def ran_def)
  have p: "perm_next (symtab_init 8) = 8" by (simp add: symtab_init_def)
  from intern_length_boundary [OF r m, of ?str] obtain h st' n where
    "jl_symbol_raw demo_hashing (symtab_init 8) ?str MAX_SYM_LEN = Some (Inr h, st')"
    "mem st' h = Some n" "sym_name n = take (unat MAX_SYM_LEN) ?str @ [0]"
    "jl_symbol_name st' h = Some (take (unat MAX_SYM_LEN) ?str)"
    "jl_symbol_raw demo_hashing st' ?str MAX_SYM_LEN = Some (Inr h, st')"
    "take (unat MAX_SYM_LEN) ?str \<in> interned (symtab_init 8) \<and> st' = symtab_init 8 \<or>
     take (unat MAX_SYM_LEN) ?str \<notin> interned (symtab_init 8) \<and>
     mem (symtab_init 8) h = None \<and> h = perm_next (symtab_init 8) \<and>
     perm_next st' = perm_next (symtab_init 8) + unat (symbol_nbytes MAX_SYM_LEN)"
    and too_long: "jl_symbol_raw demo_hashing (symtab_init 8) ?str (MAX_SYM_LEN + 1)
      = Some (Inl NameTooLong, symtab_init 8)"
    by blast
  then have "\<exists>st' n.
      jl_symbol_raw demo_hashing (symtab_init 8) ?str MAX_SYM_LEN = Some (Inr 8, st') \<and>
      mem st' 8 = Some n \<and> sym_name n = ?str @ [0] \<and>
      jl_symbol_name st' 8 = Some ?str \<and>
      perm_next st' = 8 + unat (symbol_nbytes MAX_SYM_LEN) \<and>
      jl_symbol_raw demo_hashing st' ?str MAX_SYM_LEN = Some (Inr 8, st')"
    unfolding t p using i by blast
  with r m too_long show ?thesis by blast
qed

text \<open>
  C8. \<open>jl_symbol_n\<close> raises "Symbol name may not contain \0" exactly when a NUL is
  among the first \<open>len\<close> bytes, and then leaves the state as it was; when there is none
  (and the \<open>len\<close> bytes are readable) it is \<open>_jl_symbol\<close> on the same arguments, result
  and state, which succeeds in every reachable state when \<open>len \<le> MAX_SYM_LEN\<close>.
\<close>

theorem internChecked_embedded_nul:
  assumes "reachable H st"
  shows "(\<forall>r st'. jl_symbol_n H st str len = Some (r, st') \<longrightarrow>
        (r = Inl EmbeddedNul \<longleftrightarrow> 0 \<in> set (take (unat len) str))) \<and>
     (0 \<in> set (take (unat len) str) \<longrightarrow>
        jl_symbol_n H st str len = Some (Inl EmbeddedNul, st)) \<and>
     (0 \<notin> set (take (unat len) str) \<and> unat len \<le> length str \<longrightarrow>
        jl_symbol_n H st str len = jl_symbol_raw H st str len \<and>
        (len \<le> MAX_SYM_LEN \<longrightarrow> (\<exists>h st'. jl_symbol_n H st str len = Some (Inr h, st'))))"
proof -
  from assms have inv: "symtab_inv H st" by (rule reachable_inv)
  have nul: "jl_symbol_n H st str len = Some (Inl EmbeddedNul, st)"
    if "0 \<in> set (take (unat len) str)"
    using that by (simp add: jl_symbol_n_def memchr_iff)
  have iff: "r = Inl EmbeddedNul \<longleftrightarrow> 0 \<in> set (take (unat len) str)"
    if "jl_symbol_n H st str len = Some (r, st')" for r st'
  proof (cases "0 \<in> set (take (unat len) str)")
    case True
    with nul that show ?thesis by simp
  next
    case False
    with that have "jl_symbol_raw H st str len = Some (r, st')"
      by (simp add: jl_symbol_n_def memchr_iff split: if_splits)
    from jl_symbol_raw_not_nul [OF this] False show ?thesis by simp
  qed
  have ok: "jl_symbol_n H st str len = jl_symbol_raw H st str len \<and>
        (len \<le> MAX_SYM_LEN \<longrightarrow> (\<exists>h st'. jl_symbol_n H st str len = Some (Inr h, st')))"
    if "0 \<notin> set (take (unat len) str)" "unat len \<le> length str"
  proof -
    from that have m: "memchr str 0 (unat len) = Some False" by (simp add: memchr_False_iff)
    then have e: "jl_symbol_n H st str len = jl_symbol_raw H st str len"
      by (simp add: jl_symbol_n_def)
    have "\<exists>h st'. jl_symbol_raw H st str len = Some (Inr h, st')" if "len \<le> MAX_SYM_LEN"
      using jl_symbol_raw_inv [OF inv that m] by blast
    with e show ?thesis by simp
  qed
  from nul iff ok show ?thesis by blast
qed

theorem internChecked_embedded_nul_witness:
  "reachable demo_hashing (symtab_init 8) \<and>
   jl_symbol_n demo_hashing (symtab_init 8) [97, 0, 98] 3
     = Some (Inl EmbeddedNul, symtab_init 8) \<and>
   jl_symbol_n demo_hashing (symtab_init 8) [97, 99, 98] 3
     = jl_symbol_raw demo_hashing (symtab_init 8) [97, 99, 98] 3 \<and>
   (\<exists>h st'. jl_symbol_n demo_hashing (symtab_init 8) [97, 99, 98] 3 = Some (Inr h, st'))"
proof -
  have r: "reachable demo_hashing (symtab_init 8)" by (rule reach_init)
  have a: "0 \<in> set (take (unat (3 :: size_t)) [97, 0, 98 :: byte])" by simp
  have b: "0 \<notin> set (take (unat (3 :: size_t)) [97, 99, 98 :: byte])" by simp
  have c: "unat (3 :: size_t) \<le> length [97, 99, 98 :: byte]" by simp
  have l: "(3 :: size_t) \<le> MAX_SYM_LEN" by (simp add: le_MAX_SYM_LEN)
  from internChecked_embedded_nul [OF r, of "[97, 0, 98]" 3] a
  have 1: "jl_symbol_n demo_hashing (symtab_init 8) [97, 0, 98] 3
     = Some (Inl EmbeddedNul, symtab_init 8)" by blast
  from internChecked_embedded_nul [OF r, of "[97, 99, 98]" 3] b c l
  have 2: "jl_symbol_n demo_hashing (symtab_init 8) [97, 99, 98] 3
     = jl_symbol_raw demo_hashing (symtab_init 8) [97, 99, 98] 3 \<and>
   (\<exists>h st'. jl_symbol_n demo_hashing (symtab_init 8) [97, 99, 98] 3 = Some (Inr h, st'))"
    by blast
  from r 1 2 show ?thesis by blast
qed

text \<open>
  C9. For every name length \<open>len\<close> up to \<open>MAX_SYM_LEN\<close>, the number of bytes
  \<open>symbol_nbytes len\<close> that \<open>mk_symbol\<close> asks the immortal allocator for is a multiple
  of 8, is at least the size of the node header plus \<open>len\<close> plus one terminator byte,
  and is that sum rounded up to the next multiple of 8 (so less than 8 bytes more).
  \<open>mk_symbol\<close> takes exactly that many bytes from the allocator.
\<close>

theorem symbol_nbytes_rounds_up:
  assumes "len \<le> MAX_SYM_LEN"
  shows "8 dvd unat (symbol_nbytes len) \<and>
         unat sizeof_jl_sym_t + unat len + 1 \<le> unat (symbol_nbytes len) \<and>
         unat (symbol_nbytes len) = (unat sizeof_jl_sym_t + unat len + 1 + 7) div 8 * 8 \<and>
         unat (symbol_nbytes len) < unat sizeof_jl_sym_t + unat len + 1 + 8 \<and>
         (\<forall>H st str a st'. mk_symbol H st str len = Some (a, st') \<longrightarrow>
            a = perm_next st \<and> perm_next st' = perm_next st + unat (symbol_nbytes len))"
proof -
  have n: "unat (symbol_nbytes len) = (unat len + 32) div 8 * 8"
    by (rule unat_symbol_nbytes [OF assms])
  have s: "unat sizeof_jl_sym_t = 24" by (simp add: sizeof_jl_sym_t_def)
  have "8 dvd unat (symbol_nbytes len)" unfolding n by simp
  moreover have "unat sizeof_jl_sym_t + unat len + 1 \<le> unat (symbol_nbytes len)"
    unfolding n s by arith
  moreover have "unat (symbol_nbytes len) = (unat sizeof_jl_sym_t + unat len + 1 + 7) div 8 * 8"
    unfolding n s by (simp add: add.commute)
  moreover have "unat (symbol_nbytes len) < unat sizeof_jl_sym_t + unat len + 1 + 8"
    unfolding n s by arith
  moreover have "a = perm_next st \<and> perm_next st' = perm_next st + unat (symbol_nbytes len)"
    if "mk_symbol H st str len = Some (a, st')" for H st str a st'
    using that
    by (auto simp: mk_symbol_def jl_gc_permobj_def Let_def split: option.splits)
  ultimately show ?thesis by blast
qed

theorem symbol_nbytes_rounds_up_witness:
  "(5 :: size_t) \<le> MAX_SYM_LEN \<and> 8 dvd unat (symbol_nbytes 5) \<and>
   unat sizeof_jl_sym_t + unat (5 :: size_t) + 1 \<le> unat (symbol_nbytes 5) \<and>
   unat (symbol_nbytes 5) = 32"
proof -
  have h: "(5 :: size_t) \<le> MAX_SYM_LEN" by (simp add: le_MAX_SYM_LEN)
  from symbol_nbytes_rounds_up [OF h] h show ?thesis
    by (simp add: sizeof_jl_sym_t_def)
qed

text \<open>
  C10. With the tag length \<^verbatim>\<open>(size_t)-1\<close> \<open>jl_tagged_gensym\<close> never raises "Symbol name
  may not contain \0", and on a NUL-terminated tag it does what it does with
  \<^verbatim>\<open>strlen(str)\<close> as the length. With any other tag length it raises that error exactly
  when a NUL is among the first \<open>len\<close> bytes of the tag.
\<close>

theorem tagged_gensym_sentinel:
  "(\<forall>r st'. jl_tagged_gensym H st str (- 1) = Some (r, st') \<longrightarrow> r \<noteq> Inl EmbeddedNul) \<and>
   (\<forall>l. strlen str = Some l \<and> l < 2 ^ 64 \<longrightarrow>
      jl_tagged_gensym H st str (- 1) = jl_tagged_gensym H st str (of_nat l)) \<and>
   (\<forall>len r st'. len \<noteq> - 1 \<and> jl_tagged_gensym H st str len = Some (r, st') \<longrightarrow>
      (r = Inl EmbeddedNul \<longleftrightarrow> 0 \<in> set (take (unat len) str))) \<and>
   (\<forall>len. len \<noteq> - 1 \<and> 0 \<in> set (take (unat len) str) \<longrightarrow>
      jl_tagged_gensym H st str len = Some (Inl EmbeddedNul, st))"
proof -
  have a: "r \<noteq> Inl EmbeddedNul" if "jl_tagged_gensym H st str (- 1) = Some (r, st')" for r st'
    using that by (rule jl_tagged_gensym_sentinel_not_nul)
  have b: "jl_tagged_gensym H st str (- 1) = jl_tagged_gensym H st str (of_nat l)"
    if "strlen str = Some l" "l < 2 ^ 64" for l
    using that by (rule jl_tagged_gensym_sentinel)
  have c: "r = Inl EmbeddedNul \<longleftrightarrow> 0 \<in> set (take (unat len) str)"
    if "len \<noteq> - 1" "jl_tagged_gensym H st str len = Some (r, st')" for len r st'
  proof -
    have "memchr str 0 (unat len) = Some True \<longleftrightarrow> 0 \<in> set (take (unat len) str)"
      by (simp add: memchr_iff)
    with jl_tagged_gensym_nul_iff [OF that] show ?thesis by simp
  qed
  have d: "jl_tagged_gensym H st str len = Some (Inl EmbeddedNul, st)"
    if "len \<noteq> - 1" "0 \<in> set (take (unat len) str)" for len
    using that(2) by (intro jl_tagged_gensym_nul [OF that(1)]) (simp add: memchr_iff)
  from a b c d show ?thesis by blast
qed

theorem tagged_gensym_sentinel_witness:
  "strlen [97, 0, 98, 0] = Some 1 \<and> (3 :: size_t) \<noteq> - 1 \<and>
   0 \<in> set (take (unat (3 :: size_t)) [97, 0, 98, 0 :: byte]) \<and>
   jl_tagged_gensym demo_hashing (symtab_init 8) [97, 0, 98, 0] (- 1)
     = jl_tagged_gensym demo_hashing (symtab_init 8) [97, 0, 98, 0] 1 \<and>
   jl_tagged_gensym demo_hashing (symtab_init 8) [97, 0, 98, 0] (- 1)
     \<noteq> Some (Inl EmbeddedNul, symtab_init 8) \<and>
   jl_tagged_gensym demo_hashing (symtab_init 8) [97, 0, 98, 0] 3
     = Some (Inl EmbeddedNul, symtab_init 8)"
proof -
  have s: "strlen [97, 0, 98, 0] = Some 1" by simp
  have l: "(1 :: nat) < 2 ^ 64" by simp
  have n: "(3 :: size_t) \<noteq> - 1" by simp
  have z: "0 \<in> set (take (unat (3 :: size_t)) [97, 0, 98, 0 :: byte])" by simp
  note t = tagged_gensym_sentinel [of demo_hashing "symtab_init 8" "[97, 0, 98, 0]"]
  from t s l have 1: "jl_tagged_gensym demo_hashing (symtab_init 8) [97, 0, 98, 0] (- 1)
     = jl_tagged_gensym demo_hashing (symtab_init 8) [97, 0, 98, 0] (of_nat 1)" by blast
  from t have 2: "jl_tagged_gensym demo_hashing (symtab_init 8) [97, 0, 98, 0] (- 1)
     \<noteq> Some (Inl EmbeddedNul, symtab_init 8)" by blast
  from t n z have 3: "jl_tagged_gensym demo_hashing (symtab_init 8) [97, 0, 98, 0] 3
     = Some (Inl EmbeddedNul, symtab_init 8)" by blast
  from s n z 1 2 3 show ?thesis by simp
qed

end
